theory Spec2Isabelle
  imports Main "HOL-Library.Word"
begin

unbundle bit_operations_syntax

section \<open>Binary to decimal conversion of IEEE-754 bit patterns (src/lib/btod.cpp)\<close>

text \<open>
  The C++ source keeps a decimal big integer in a \<^verbatim>\<open>vector<unsigned char>\<close>, least
  significant digit first. A stored element is modelled as a \<^typ>\<open>nat\<close>, and every store
  that could exceed an \<^verbatim>\<open>unsigned char\<close> is written with its reduction \<open>mod 256\<close>.
  The source includes \<^verbatim>\<open><cassert>\<close> and does not define \<^verbatim>\<open>NDEBUG\<close>: a failing
  \<^verbatim>\<open>assert\<close> ends the program, which the model returns as the value
  \<open>Inl AssertionFailed\<close>.
\<close>

datatype error = AssertionFailed

subsection \<open>class Bigint\<close>

text \<open>
  \<^verbatim>\<open>normalise(i)\<close>: the loop runs from position \<open>i\<close> to the end of the vector. The
  local \<^verbatim>\<open>int carry\<close> never exceeds \<open>255 + 28\<close>, so it is a \<^typ>\<open>nat\<close> here.
\<close>

function normalise_loop :: "nat \<Rightarrow> nat \<Rightarrow> nat list \<Rightarrow> nat list \<times> nat" where
  "normalise_loop i carry digits =
     (if i < length digits
      then normalise_loop (i + 1) ((carry + digits ! i) div 10)
             (digits[i := (carry + digits ! i) mod 10])
      else (digits, carry))"
  by pat_completeness auto
termination
  by (relation "measure (\<lambda>(i, carry, digits). length digits - i)") auto

declare normalise_loop.simps [simp del]

definition normalise :: "nat \<Rightarrow> nat list \<Rightarrow> error + nat list" where
  "normalise i digits =
     (case normalise_loop i 0 digits of
        (digits', carry) \<Rightarrow> if carry \<noteq> 0 then Inl AssertionFailed else Inr digits')"

text \<open>\<^verbatim>\<open>contract()\<close>: the while loop lowers \<open>size\<close> past every top zero digit.\<close>

fun contract_size :: "nat list \<Rightarrow> nat \<Rightarrow> nat" where
  "contract_size digits 0 = 0"
| "contract_size digits (Suc n) =
     (if digits ! n = 0 then contract_size digits n else Suc n)"

definition contract :: "nat list \<Rightarrow> nat list" where
  "contract digits = take (contract_size digits (length digits)) digits"

definition expand :: "nat \<Rightarrow> nat list \<Rightarrow> nat list" where
  "expand newsize digits =
     (if newsize > length digits then digits @ replicate (newsize - length digits) 0
      else digits)"

text \<open>
  \<^verbatim>\<open>sprintf(buf, "%.0llu", val)\<close>: the decimal digits of \<open>val\<close>, most significant
  first, and no character at all for zero.
\<close>

fun sprintf_llu :: "nat \<Rightarrow> string" where
  "sprintf_llu val =
     (if val = 0 then [] else sprintf_llu (val div 10) @ [char_of (48 + val mod 10)])"

declare sprintf_llu.simps [simp del]

text \<open>
  The constructor \<^verbatim>\<open>Bigint(val, extradigits, filldigit)\<close>: \<open>extradigits\<close> copies of the
  fill digit (an \<^verbatim>\<open>int\<close> stored into an \<^verbatim>\<open>unsigned char\<close>), then the characters of
  the buffer from its last to its first, each minus \<^verbatim>\<open>'0'\<close>.
\<close>

definition Bigint :: "64 word \<Rightarrow> nat \<Rightarrow> int \<Rightarrow> nat list" where
  "Bigint val extradigits filldigit =
     replicate extradigits (nat (filldigit mod 256))
       @ map (\<lambda>c. (of_char c :: nat) - 48) (rev (sprintf_llu (unat val)))"

text \<open>\<^verbatim>\<open>operator+=\<close>: the digit-wise loop, then \<^verbatim>\<open>normalise()\<close> and \<^verbatim>\<open>contract()\<close>.\<close>

function add_loop :: "nat \<Rightarrow> nat list \<Rightarrow> nat list \<Rightarrow> nat list" where
  "add_loop i rhs digits =
     (if i < length rhs
      then add_loop (i + 1) rhs (digits[i := (digits ! i + rhs ! i) mod 256])
      else digits)"
  by pat_completeness auto
termination
  by (relation "measure (\<lambda>(i, rhs, digits). length rhs - i)") auto

declare add_loop.simps [simp del]

definition add_assign :: "nat list \<Rightarrow> nat list \<Rightarrow> error + nat list" where
  "add_assign digits rhs =
     (case normalise 0 (add_loop 0 rhs (expand (length rhs + 1) digits)) of
        Inl e \<Rightarrow> Inl e
      | Inr d \<Rightarrow> Inr (contract d))"

text \<open>
  \<^verbatim>\<open>operator*=\<close>: the outer loop \<^verbatim>\<open>for (i = oldsize; i-- > 0;)\<close> takes the digit at
  \<open>i\<close>, clears it, adds \<open>rhs[j] * digit\<close> at \<open>i + j\<close> for every \<open>j\<close>, and normalises
  from \<open>i\<close>.
\<close>

function mul_inner :: "nat \<Rightarrow> nat \<Rightarrow> nat \<Rightarrow> nat list \<Rightarrow> nat list \<Rightarrow> nat list" where
  "mul_inner i digit j rhs digits =
     (if j < length rhs
      then mul_inner i digit (j + 1) rhs
             (digits[i + j := (digits ! (i + j) + rhs ! j * digit) mod 256])
      else digits)"
  by pat_completeness auto
termination
  by (relation "measure (\<lambda>(i, digit, j, rhs, digits). length rhs - j)") auto

declare mul_inner.simps [simp del]

fun mul_outer :: "nat \<Rightarrow> nat list \<Rightarrow> nat list \<Rightarrow> error + nat list" where
  "mul_outer 0 rhs digits = Inr digits"
| "mul_outer (Suc i) rhs digits =
     (case normalise i (mul_inner i (digits ! i) 0 rhs (digits[i := 0])) of
        Inl e \<Rightarrow> Inl e
      | Inr d \<Rightarrow> mul_outer i rhs d)"

definition mul_assign :: "nat list \<Rightarrow> nat list \<Rightarrow> error + nat list" where
  "mul_assign digits rhs =
     (case mul_outer (length digits) rhs
             (expand (length digits + length rhs + 1) digits) of
        Inl e \<Rightarrow> Inl e
      | Inr d \<Rightarrow> Inr (contract d))"

definition ndigits :: "nat list \<Rightarrow> int" where
  "ndigits digits = int (length digits)"

definition digit :: "nat list \<Rightarrow> int \<Rightarrow> int" where
  "digit digits i = (if i \<ge> 0 \<and> nat i < length digits then int (digits ! nat i) else 0)"

subsection \<open>The memoised powers of two and five\<close>

record caches =
  powers2 :: "32 word \<rightharpoonup> nat list"
  powers5 :: "32 word \<rightharpoonup> nat list"

definition powers :: "int \<Rightarrow> caches \<Rightarrow> (32 word \<rightharpoonup> nat list)" where
  "powers v s = (if v = 2 then powers2 s else powers5 s)"

definition powers_update :: "int \<Rightarrow> 32 word \<Rightarrow> nat list \<Rightarrow> caches \<Rightarrow> caches" where
  "powers_update v n a s =
     (if v = 2 then s\<lparr>powers2 := (powers2 s)(n \<mapsto> a)\<rparr>
      else s\<lparr>powers5 := (powers5 s)(n \<mapsto> a)\<rparr>)"

definition lowbit :: "32 word \<Rightarrow> 32 word" where
  "lowbit n = n AND - n"

text \<open>
  \<^verbatim>\<open>power_of(v, n)\<close> reads and fills the global maps \<^verbatim>\<open>powers2\<close> and
  \<^verbatim>\<open>powers5\<close>; the model takes them as a state and returns them updated. The
  multiplication may end the program at its assertion, and so may the check on \<open>v\<close>.
\<close>

function power_of :: "int \<Rightarrow> 32 word \<Rightarrow> caches \<Rightarrow> error + (nat list \<times> caches)" where
  "power_of v n s =
     (if \<not> (v = 2 \<or> v = 5) then Inl AssertionFailed
      else case powers v s n of
        Some p \<Rightarrow> Inr (p, s)
      | None \<Rightarrow>
          if n \<noteq> lowbit n then
            (case power_of v (n - lowbit n) s of
               Inl e \<Rightarrow> Inl e
             | Inr (a, s1) \<Rightarrow>
                 (case power_of v (lowbit n) s1 of
                    Inl e \<Rightarrow> Inl e
                  | Inr (b, s2) \<Rightarrow>
                      (case mul_assign a b of
                         Inl e \<Rightarrow> Inl e
                       | Inr a' \<Rightarrow> Inr (a', powers_update v n a' s2))))
          else if n > 1 then
            (case power_of v (n div 2) s of
               Inl e \<Rightarrow> Inl e
             | Inr (a, s1) \<Rightarrow>
                 (case mul_assign a a of
                    Inl e \<Rightarrow> Inl e
                  | Inr a' \<Rightarrow> Inr (a', powers_update v n a' s1)))
          else
            (let a = Bigint (word_of_int (if n = 1 then v else 1)) 0 0
             in Inr (a, powers_update v n a s)))"
  by pat_completeness auto
termination
proof -
  have absorb: "n AND m = n" if "n AND NOT m = 0" for n m :: "32 word"
  proof -
    have "n = n AND (m OR NOT m)"
      by simp
    also have "\<dots> = (n AND m) OR (n AND NOT m)"
      by (simp only: bit.conj_disj_distrib)
    also have "\<dots> = n AND m"
      using that by simp
    finally show ?thesis
      by simp
  qed
  have nonzero: "lowbit n \<noteq> 0" if "n \<noteq> 0" for n
  proof
    assume "lowbit n = 0"
    then have "n AND NOT (n - 1) = 0"
      by (simp add: lowbit_def minus_eq_not_minus_1)
    then have "n AND (n - 1) = n"
      by (rule absorb)
    then have "n \<le> n - 1"
      using word_and_le1 [of n "n - 1"] by simp
    then show False
      using that by (simp add: sub_wrap)
  qed
  have le: "lowbit n \<le> n" for n
    unfolding lowbit_def by (rule word_and_le2)
  have sub: "unat (n - lowbit n) < unat n" if "n \<noteq> lowbit n" for n
  proof -
    have "n \<noteq> 0"
      using that by (auto simp: lowbit_def)
    then have "\<not> n \<le> n - lowbit n"
      using nonzero [of n] le [of n] by (simp add: sub_wrap)
    then show ?thesis
      by (simp add: word_le_nat_alt)
  qed
  have low: "unat (lowbit n) < unat n" if "n \<noteq> lowbit n" for n
  proof -
    have "lowbit n < n"
      using that le [of n] by (simp add: less_le)
    then show ?thesis
      by (simp add: word_less_nat_alt)
  qed
  have half: "unat (n div 2) < unat n" if "1 < n" for n :: "32 word"
  proof -
    have "0 < unat n"
      using that by (simp add: word_less_nat_alt)
    then show ?thesis
      by (simp add: unat_div)
  qed
  show ?thesis
    by (relation "measure (\<lambda>(v, n, s). unat n)") (auto simp: sub low half)
qed

declare power_of.simps [simp del]

subsection \<open>The conversion driver\<close>

text \<open>
  \<^verbatim>\<open>sprintf(expstr, "e%+03d", x)\<close>: the letter, a sign that is always written, and the
  magnitude in decimal, padded with zeros on the left to two digits.
\<close>

definition sprintf_exp :: "int \<Rightarrow> string" where
  "sprintf_exp x =
     (let ds = (if x = 0 then ''0'' else sprintf_llu (nat \<bar>x\<bar>))
      in ''e'' @ (if x < 0 then ''-'' else ''+'') @ replicate (2 - length ds) CHR ''0'' @ ds)"

text \<open>
  The loop \<^verbatim>\<open>for (int i = 1; i < precision; i++) ret.push_back('0' + val.digit(digitpos--))\<close>,
  as a recursion on the number of iterations left.
\<close>

fun push_digits :: "nat \<Rightarrow> nat list \<Rightarrow> int \<Rightarrow> string" where
  "push_digits 0 val digitpos = []"
| "push_digits (Suc k) val digitpos =
     char_of (48 + digit val digitpos) # push_digits k val (digitpos - 1)"

text \<open>The scaling step of \<^verbatim>\<open>fp_btod\<close>: the value and the decimal exponent so far.\<close>

definition fp_scale ::
    "64 word \<Rightarrow> int \<Rightarrow> caches \<Rightarrow> error + ((nat list \<times> int) \<times> caches)" where
  "fp_scale mantissa pow2 s =
     (let val = Bigint mantissa 0 0 in
      if pow2 > 0 then
        (case power_of 2 (word_of_int pow2) s of
           Inl e \<Rightarrow> Inl e
         | Inr (p, s') \<Rightarrow>
             (case mul_assign val p of
                Inl e \<Rightarrow> Inl e
              | Inr val' \<Rightarrow> Inr ((val', 0), s')))
      else if pow2 < 0 then
        (case power_of 5 (word_of_int (- pow2)) s of
           Inl e \<Rightarrow> Inl e
         | Inr (p, s') \<Rightarrow>
             (case mul_assign val p of
                Inl e \<Rightarrow> Inl e
              | Inr val' \<Rightarrow> Inr ((val', pow2), s')))
      else Inr ((val, 0), s))"

text \<open>The rounding step: nothing, or one of the two additions.\<close>

definition fp_round :: "nat list \<Rightarrow> int \<Rightarrow> int \<Rightarrow> error + nat list" where
  "fp_round val digitpos precision =
     (if digitpos - precision \<ge> 0 then
        if digit val (digitpos - precision) \<ge> 5 then
          if odd (digit val (digitpos - precision + 1))
          then add_assign val (Bigint 5 (nat (digitpos - precision)) 0)
          else add_assign val (Bigint 4 (nat (digitpos - precision)) 9)
        else Inr val
      else Inr val)"

text \<open>The formatting step: first digit, point, the other digits, the exponent.\<close>

definition fp_format :: "nat list \<Rightarrow> int \<Rightarrow> int \<Rightarrow> int \<Rightarrow> string" where
  "fp_format val digitpos precision pow10 =
     [char_of (48 + digit val digitpos)] @ ''.''
       @ push_digits (nat (precision - 1)) val (digitpos - 1)
       @ sprintf_exp (if ndigits val = 0 then 0 else pow10)"

definition fp_btod :: "64 word \<Rightarrow> int \<Rightarrow> int \<Rightarrow> caches \<Rightarrow> error + (string \<times> caches)" where
  "fp_btod mantissa pow2 precision s =
     (case fp_scale mantissa pow2 s of
        Inl e \<Rightarrow> Inl e
      | Inr ((val, p10), s') \<Rightarrow>
          (let digitpos = ndigits val - 1;
               pow10 = p10 + digitpos
           in case fp_round val digitpos precision of
                Inl e \<Rightarrow> Inl e
              | Inr val' \<Rightarrow> Inr (fp_format val' digitpos precision pow10, s')))"

subsection \<open>The bit-pattern decoder and the two entry points\<close>

text \<open>
  \<^verbatim>\<open>ieee_btod(val, ebits, mbits, digits)\<close>. \<open>val\<close> is an \<^verbatim>\<open>unsigned long long\<close> and
  \<open>exp\<close> an \<^verbatim>\<open>int\<close>: the conversions between the two are \<open>ucast\<close> (to 32 bits) and
  \<open>scast\<close> (sign extension in \<^verbatim>\<open>exp -= ...\<close>, which is computed in 64 bits).
\<close>

definition ieee_btod ::
    "64 word \<Rightarrow> nat \<Rightarrow> nat \<Rightarrow> int \<Rightarrow> caches \<Rightarrow> error + (string \<times> caches)" where
  "ieee_btod val ebits mbits digits s =
     (let ret = (if val AND push_bit (ebits + mbits) 1 \<noteq> 0 then ''-'' else '' '');
          exp = (ucast (drop_bit mbits val AND (push_bit ebits 1 - 1)) :: 32 word);
          val1 = val AND (push_bit mbits 1 - 1)
      in if exp = ucast (push_bit ebits 1 - 1 :: 64 word)
         then Inr (ret @ (if val1 \<noteq> 0 then ''NaN'' else ''Inf''), s)
         else
           (let val2 = (if exp \<noteq> 0 then val1 OR push_bit mbits 1 else val1);
                exp1 = (if exp \<noteq> 0 then exp - 1 else exp);
                exp2 = (ucast ((scast exp1 :: 64 word)
                          - (push_bit (ebits - 1) 1 - 2 + of_nat mbits)) :: 32 word)
            in case fp_btod val2 (sint exp2) digits s of
                 Inl e \<Rightarrow> Inl e
               | Inr (str, s') \<Rightarrow> Inr (ret @ str, s')))"

definition float_btod :: "32 word \<Rightarrow> caches \<Rightarrow> error + (string \<times> caches)" where
  "float_btod val = ieee_btod (ucast val) 8 23 9"

definition double_btod :: "64 word \<Rightarrow> caches \<Rightarrow> error + (string \<times> caches)" where
  "double_btod val = ieee_btod val 11 52 17"

text \<open>The two maps are empty when the program starts.\<close>

definition init_caches :: caches where
  "init_caches = \<lparr>powers2 = Map.empty, powers5 = Map.empty\<rparr>"

subsection \<open>The number a digit vector stands for\<close>

text \<open>
  These notions are not in the source: they say what a \<^verbatim>\<open>Bigint\<close> means. Its value
  is the sum of \<open>digit i * 10^i\<close>; \<open>digits_ok\<close> is the range of the digits;
  \<open>bigint_inv\<close> adds that there is no top zero digit; \<open>decimal n\<close> is the digit
  vector of \<open>n\<close> that satisfies the invariant.
\<close>

fun bigint_value :: "nat list \<Rightarrow> nat" where
  "bigint_value [] = 0"
| "bigint_value (d # ds) = d + 10 * bigint_value ds"

definition digits_ok :: "nat list \<Rightarrow> bool" where
  "digits_ok ds \<longleftrightarrow> (\<forall>d \<in> set ds. d \<le> 9)"

definition bigint_inv :: "nat list \<Rightarrow> bool" where
  "bigint_inv ds \<longleftrightarrow> digits_ok ds \<and> (ds \<noteq> [] \<longrightarrow> last ds \<noteq> 0)"

fun decimal :: "nat \<Rightarrow> nat list" where
  "decimal n = (if n = 0 then [] else n mod 10 # decimal (n div 10))"

declare decimal.simps [simp del]

text \<open>
  The invariant of the two maps: whatever is stored under \<open>n\<close> is the digit vector of
  \<open>2^n\<close>, respectively \<open>5^n\<close>. It holds of the empty maps and \<^verbatim>\<open>power_of\<close> keeps it.
\<close>

definition cache_ok :: "caches \<Rightarrow> bool" where
  "cache_ok s \<longleftrightarrow>
     (\<forall>n p. powers2 s n = Some p \<longrightarrow> p = decimal (2 ^ unat n))
     \<and> (\<forall>n p. powers5 s n = Some p \<longrightarrow> p = decimal (5 ^ unat n))"

text \<open>
  The number that \<^verbatim>\<open>fp_btod\<close> holds after scaling: \<open>m * 2^e\<close> for a positive
  exponent, and \<open>m * 5^(-e)\<close> otherwise, which is \<open>m * 2^e * 10^(-e)\<close>.
\<close>

definition scaled_value :: "nat \<Rightarrow> int \<Rightarrow> nat" where
  "scaled_value m e = (if e > 0 then m * 2 ^ nat e else m * 5 ^ nat (- e))"

text \<open>
  Rounding to nearest with ties to even, in units of \<open>u\<close>: the quotient \<open>V div u\<close>,
  plus one when the remainder is more than half of \<open>u\<close>, or exactly half with an odd
  quotient. \<open>significand V p\<close> is \<open>V\<close> rounded to \<open>p\<close> significant decimal digits,
  as a number of \<open>p\<close> digits (or \<open>p + 1\<close>, when rounding reaches the next power of
  ten); \<open>sci_digits Q p\<close> writes the \<open>p\<close> lowest digits of \<open>Q\<close> with a point after the
  first.
\<close>

definition round_half_even :: "nat \<Rightarrow> nat \<Rightarrow> nat" where
  "round_half_even V u =
     (if u < 2 * (V mod u) \<or> (2 * (V mod u) = u \<and> odd (V div u)) then V div u + 1
      else V div u)"

definition significand :: "nat \<Rightarrow> nat \<Rightarrow> nat" where
  "significand V p =
     (if p < length (decimal V) then round_half_even V (10 ^ (length (decimal V) - p))
      else V * 10 ^ (p - length (decimal V)))"

definition sci_digits :: "nat \<Rightarrow> nat \<Rightarrow> string" where
  "sci_digits Q p =
     char_of (48 + (Q div 10 ^ (p - 1)) mod 10) # CHR ''.''
       # map (\<lambda>j. char_of (48 + (Q div 10 ^ (p - 1 - j)) mod 10)) [1..<p]"

section \<open>Properties\<close>

subsection \<open>The lowest set bit\<close>

lemma lowbit_le: "lowbit n \<le> n"
  unfolding lowbit_def by (rule word_and_le2)

lemma and_not_zero_absorb:
  fixes n m :: "32 word"
  assumes "n AND NOT m = 0"
  shows "n AND m = n"
proof -
  have "n = n AND (m OR NOT m)"
    by simp
  also have "\<dots> = (n AND m) OR (n AND NOT m)"
    by (simp only: bit.conj_disj_distrib)
  also have "\<dots> = n AND m"
    using assms by simp
  finally show ?thesis
    by simp
qed

lemma lowbit_nonzero:
  assumes "n \<noteq> 0"
  shows "lowbit n \<noteq> 0"
proof
  assume z: "lowbit n = 0"
  have "- n = NOT (n - 1)"
    by (simp add: minus_eq_not_minus_1)
  with z have "n AND NOT (n - 1) = 0"
    by (simp add: lowbit_def)
  then have "n AND (n - 1) = n"
    by (rule and_not_zero_absorb)
  then have "n \<le> n - 1"
    using word_and_le1 [of n "n - 1"] by simp
  then show False
    using assms by (simp add: sub_wrap)
qed

lemma lowbit_decreases:
  assumes "n \<noteq> lowbit n"
  shows "unat (n - lowbit n) < unat n" and "unat (lowbit n) < unat n"
proof -
  have n0: "n \<noteq> 0"
    using assms by (auto simp: lowbit_def)
  have lb0: "lowbit n \<noteq> 0"
    using n0 by (rule lowbit_nonzero)
  have "\<not> n \<le> n - lowbit n"
    using lb0 lowbit_le [of n] by (simp add: sub_wrap)
  then show "unat (n - lowbit n) < unat n"
    by (simp add: word_le_nat_alt)
  have "lowbit n < n"
    using assms lowbit_le [of n] by (simp add: less_le)
  then show "unat (lowbit n) < unat n"
    by (simp add: word_less_nat_alt)
qed

lemma half_decreases:
  fixes n :: "32 word"
  assumes "1 < n"
  shows "unat (n div 2) < unat n"
proof -
  have "0 < unat n"
    using assms by (simp add: word_less_nat_alt)
  then show ?thesis
    by (simp add: unat_div)
qed


lemma lowbit_odd:
  assumes "odd n"
  shows "lowbit n = 1"
proof -
  have ev: "even (n - 1)"
    using assms by simp
  then have n: "n = (n - 1) OR 1"
    by (simp add: or_one_eq)
  have "lowbit n = n AND NOT (n - 1)"
    by (simp add: lowbit_def minus_eq_not_minus_1)
  also have "\<dots> = ((n - 1) OR 1) AND NOT (n - 1)"
    using n by simp
  also have "\<dots> = ((n - 1) AND NOT (n - 1)) OR (1 AND NOT (n - 1))"
    by (simp only: bit.conj_disj_distrib2)
  also have "\<dots> = 1 AND NOT (n - 1)"
    by simp
  also have "\<dots> = 1"
    using ev by (simp add: one_and_eq mod_2_eq_odd)
  finally show ?thesis .
qed

lemma unat_lowbit_split:
  "unat (n - lowbit n) + unat (lowbit n) = unat n"
  using lowbit_le [of n] by (simp add: unat_sub word_le_nat_alt)

lemma unat_half_double:
  assumes "n = lowbit n" and "1 < n"
  shows "unat (n div 2) + unat (n div 2) = unat n"
proof -
  have "even n"
  proof (rule ccontr)
    assume "odd n"
    then have "lowbit n = 1" by (rule lowbit_odd)
    with assms show False by simp
  qed
  then have "n mod 2 = 0"
    by (simp add: even_iff_mod_2_eq_zero)
  then have "unat (n mod 2) = 0"
    by simp
  then have "even (unat n)"
    by (simp add: unat_mod even_iff_mod_2_eq_zero)
  then show ?thesis
    by (auto simp: unat_div elim: evenE)
qed

lemma word_not_gt_1:
  fixes n :: "32 word"
  assumes "\<not> 1 < n"
  shows "n = 0 \<or> n = 1"
proof -
  have "unat n \<le> 1"
    using assms by (simp add: word_less_nat_alt)
  then have "unat n = 0 \<or> unat n = 1"
    by auto
  then show ?thesis
    by (auto simp: word_unat_eq_iff)
qed

lemma power_of_total: "All power_of_dom"
  by (relation "measure (\<lambda>(v, n, s). unat n)")
     (auto simp: lowbit_decreases half_decreases)

text \<open>
  Claim C10. \<^verbatim>\<open>power_of\<close> terminates for every base and every exponent: every argument
  triple is in the domain on which the recursion is well-founded, because each recursive
  call is on a strictly smaller exponent. When \<open>n\<close> differs from its lowest set bit, both
  \<open>n - lowbit\<close> and \<open>lowbit\<close> are below \<open>n\<close>; when \<open>n\<close> is its own lowest set bit
  and exceeds 1, \<open>n / 2\<close> is below \<open>n\<close>. The exponent is the \<^verbatim>\<open>unsigned\<close> of the
  source, read by \<^const>\<open>unat\<close>.
\<close>

theorem power_of_terminates:
  "power_of_dom (v, n, s)
   \<and> (n \<noteq> lowbit n \<longrightarrow> unat (n - lowbit n) < unat n \<and> unat (lowbit n) < unat n)
   \<and> (n = lowbit n \<and> 1 < n \<longrightarrow> unat (n div 2) < unat n)"
  using power_of_total lowbit_decreases [of n] half_decreases [of n] by blast

theorem power_of_terminates_witness:
  "power_of_dom (2, 6, init_caches)
   \<and> ((6 :: 32 word) \<noteq> lowbit 6 \<and> unat ((6 :: 32 word) - lowbit 6) < unat (6 :: 32 word)
      \<and> unat (lowbit 6) < unat (6 :: 32 word))
   \<and> ((4 :: 32 word) = lowbit 4 \<and> (1 :: 32 word) < 4
      \<and> unat ((4 :: 32 word) div 2) < unat (4 :: 32 word))"
proof -
  have l6: "lowbit 6 = 2" and l4: "lowbit 4 = 4"
    by (simp_all add: lowbit_def)
  show ?thesis
    using power_of_terminates [of 2 6 init_caches] power_of_terminates [of 2 4 init_caches]
    by (simp add: l6 l4)
qed

subsection \<open>Values and decimal digits\<close>

lemma bigint_value_append:
  "bigint_value (xs @ ys) = bigint_value xs + 10 ^ length xs * bigint_value ys"
  by (induction xs) (simp_all add: algebra_simps)

lemma bigint_value_replicate_0 [simp]: "bigint_value (replicate k 0) = 0"
  by (induction k) simp_all

lemma bigint_value_replicate_9: "bigint_value (replicate k 9) + 1 = 10 ^ k"
  by (induction k) simp_all

lemma bigint_value_less:
  "digits_ok ds \<Longrightarrow> bigint_value ds < 10 ^ length ds"
  by (induction ds) (auto simp: digits_ok_def)

lemma decimal_0 [simp]: "decimal 0 = []"
  by (simp add: decimal.simps)

lemma bigint_value_decimal [simp]: "bigint_value (decimal n) = n"
  by (induction n rule: decimal.induct) (subst decimal.simps, simp)

lemma digits_ok_decimal: "digits_ok (decimal n)"
proof (induction n rule: decimal.induct)
  case (1 n)
  show ?case
  proof (cases "n = 0")
    case True
    then show ?thesis by (simp add: decimal.simps digits_ok_def)
  next
    case False
    have "n mod 10 \<le> 9" by simp
    with 1 False show ?thesis
      by (subst decimal.simps) (simp add: digits_ok_def)
  qed
qed

lemma decimal_eq_Nil [simp]: "decimal n = [] \<longleftrightarrow> n = 0"
  by (subst decimal.simps) simp

lemma last_decimal: "n \<noteq> 0 \<Longrightarrow> last (decimal n) \<noteq> 0"
proof (induction n rule: decimal.induct)
  case (1 n)
  show ?case
  proof (cases "n div 10 = 0")
    case True
    with 1 show ?thesis
      by (subst decimal.simps) (simp add: decimal.simps [of 0])
  next
    case False
    with 1 show ?thesis
      by (subst decimal.simps) simp
  qed
qed

lemma bigint_inv_decimal: "bigint_inv (decimal n)"
  by (simp add: bigint_inv_def digits_ok_decimal last_decimal)

lemma decimal_bigint_value:
  "bigint_inv ds \<Longrightarrow> decimal (bigint_value ds) = ds"
proof (induction ds)
  case Nil
  then show ?case by (simp add: decimal.simps)
next
  case (Cons d ds)
  from Cons.prems have d: "d \<le> 9" and inv: "bigint_inv ds"
    by (auto simp: bigint_inv_def digits_ok_def)
  show ?case
  proof (cases "ds = []")
    case True
    with Cons.prems have "d \<noteq> 0"
      by (simp add: bigint_inv_def)
    with d True show ?thesis
      by (simp add: decimal.simps [of d] decimal.simps [of 0])
  next
    case False
    with inv have "bigint_value ds \<noteq> 0"
      using Cons.IH by (metis decimal_eq_Nil)
    with d Cons.IH [OF inv] show ?thesis
      by (subst decimal.simps) simp
  qed
qed

lemma length_decimal_eq:
  assumes "10 ^ k \<le> n" and "n < 10 ^ Suc k"
  shows "length (decimal n) = Suc k"
  using assms
proof (induction k arbitrary: n)
  case 0
  then have "n \<noteq> 0" "n div 10 = 0" by simp_all
  then show ?case
    by (simp add: decimal.simps [of n] decimal.simps [of 0])
next
  case (Suc k)
  have "10 ^ k \<le> n div 10" "n div 10 < 10 ^ Suc k"
    using Suc.prems by (simp_all add: less_mult_imp_div_less)
  then have "length (decimal (n div 10)) = Suc k"
    by (rule Suc.IH)
  moreover have "n \<noteq> 0"
    using Suc.prems by auto
  ultimately show ?case
    by (subst decimal.simps) simp
qed

lemma decimal_nth:
  "i < length (decimal n) \<Longrightarrow> decimal n ! i = (n div 10 ^ i) mod 10"
proof (induction n arbitrary: i rule: decimal.induct)
  case (1 n)
  show ?case
  proof (cases "n = 0")
    case True
    with 1 show ?thesis by (simp add: decimal.simps [of 0])
  next
    case False
    show ?thesis
    proof (cases i)
      case 0
      with False show ?thesis by (simp add: decimal.simps [of n])
    next
      case (Suc j)
      with False "1.prems" have "j < length (decimal (n div 10))"
        by (simp add: decimal.simps [of n])
      with "1.IH" False have "decimal (n div 10) ! j = (n div 10 div 10 ^ j) mod 10"
        by simp
      with Suc False show ?thesis
        by (simp add: decimal.simps [of n] div_mult2_eq)
    qed
  qed
qed

subsection \<open>contract and expand\<close>

lemma contract_size_le: "contract_size ds n \<le> n"
  by (induction n) auto

lemma contract_size_value:
  "n \<le> length ds \<Longrightarrow>
     bigint_value (take (contract_size ds n) ds) = bigint_value (take n ds)"
proof (induction n)
  case 0
  then show ?case by simp
next
  case (Suc n)
  then have "n < length ds" by simp
  then have "take (Suc n) ds = take n ds @ [ds ! n]"
    by (rule take_Suc_conv_app_nth)
  with Suc show ?case
    by (simp add: bigint_value_append)
qed

lemma contract_size_top:
  "contract_size ds n \<noteq> 0 \<Longrightarrow> ds ! (contract_size ds n - 1) \<noteq> 0"
  by (induction n) (auto split: if_splits)

lemma digits_ok_take: "digits_ok ds \<Longrightarrow> digits_ok (take n ds)"
  by (auto simp: digits_ok_def dest: in_set_takeD)

lemma digits_ok_drop: "digits_ok ds \<Longrightarrow> digits_ok (drop n ds)"
  by (auto simp: digits_ok_def dest: in_set_dropD)

lemma digits_ok_append [simp]: "digits_ok (xs @ ys) \<longleftrightarrow> digits_ok xs \<and> digits_ok ys"
  by (auto simp: digits_ok_def)

lemma last_take_nth:
  assumes "0 < m" and "m \<le> length ds"
  shows "last (take m ds) = ds ! (m - 1)"
proof -
  from assms have "take m ds \<noteq> []"
    by auto
  then have "last (take m ds) = take m ds ! (length (take m ds) - 1)"
    by (rule last_conv_nth)
  with assms show ?thesis
    by (simp add: min_absorb2)
qed

lemma bigint_value_contract [simp]: "bigint_value (contract ds) = bigint_value ds"
  by (simp add: contract_def contract_size_value)

lemma bigint_inv_contract:
  assumes "digits_ok ds"
  shows "bigint_inv (contract ds)"
proof -
  let ?m = "contract_size ds (length ds)"
  have le: "?m \<le> length ds"
    by (rule contract_size_le)
  have "last (take ?m ds) \<noteq> 0" if "take ?m ds \<noteq> []"
  proof -
    from that have m: "?m \<noteq> 0" by auto
    with le have "last (take ?m ds) = ds ! (?m - 1)"
      by (simp add: last_take_nth)
    with m contract_size_top [of ds "length ds"] show ?thesis
      by simp
  qed
  with assms show ?thesis
    by (simp add: bigint_inv_def contract_def digits_ok_take)
qed

lemma contract_decimal:
  "digits_ok ds \<Longrightarrow> contract ds = decimal (bigint_value ds)"
  using decimal_bigint_value [OF bigint_inv_contract, of ds] by simp

lemma length_expand: "length (expand n ds) = max n (length ds)"
  by (simp add: expand_def)

lemma bigint_value_expand [simp]: "bigint_value (expand n ds) = bigint_value ds"
  by (simp add: expand_def bigint_value_append)

lemma digits_ok_expand: "digits_ok ds \<Longrightarrow> digits_ok (expand n ds)"
  by (simp add: expand_def digits_ok_def)

subsection \<open>normalise\<close>

lemma normalise_loop_spec:
  assumes "normalise_loop i c ds = (ds', c')" and "i \<le> length ds"
  shows "length ds' = length ds \<and> take i ds' = take i ds \<and> digits_ok (drop i ds')
         \<and> bigint_value (drop i ds') + 10 ^ (length ds - i) * c'
             = bigint_value (drop i ds) + c"
  using assms
proof (induction i c ds arbitrary: ds' c' rule: normalise_loop.induct)
  case (1 i c ds)
  show ?case
  proof (cases "i < length ds")
    case False
    with "1.prems" show ?thesis
      by (simp add: normalise_loop.simps [of i c ds] digits_ok_def)
  next
    case True
    let ?x = "c + ds ! i"
    let ?ds1 = "ds[i := ?x mod 10]"
    from True "1.prems" have rec: "normalise_loop (i + 1) (?x div 10) ?ds1 = (ds', c')"
      by (simp add: normalise_loop.simps [of i c ds])
    from True have "i + 1 \<le> length ?ds1" by simp
    from "1.IH" [OF True rec this]
    have len: "length ds' = length ds"
      and tk: "take (i + 1) ds' = take (i + 1) ?ds1"
      and ok: "digits_ok (drop (i + 1) ds')"
      and val: "bigint_value (drop (i + 1) ds') + 10 ^ (length ds - (i + 1)) * c'
                 = bigint_value (drop (i + 1) ?ds1) + ?x div 10"
      by simp_all
    from True len have i': "i < length ds'" by simp
    have "take i (take (i + 1) ds') = take i (take (i + 1) ?ds1)"
      using tk by simp
    then have tk': "take i ds' = take i ds"
      by (simp add: min_absorb1)
    have "take (i + 1) ds' ! i = take (i + 1) ?ds1 ! i"
      using tk by simp
    then have nth: "ds' ! i = ?x mod 10"
      using True by simp
    have dr: "drop i ds' = ?x mod 10 # drop (i + 1) ds'"
      using Cons_nth_drop_Suc [OF i'] nth by simp
    have dr0: "drop i ds = ds ! i # drop (i + 1) ds"
      using Cons_nth_drop_Suc [OF True] by simp
    have ok': "digits_ok (drop i ds')"
      using ok by (simp add: dr digits_ok_def)
    have pw: "(10::nat) ^ (length ds - i) = 10 * 10 ^ (length ds - (i + 1))"
      using True by (simp add: Suc_diff_Suc flip: power_Suc)
    have "bigint_value (drop i ds') + 10 ^ (length ds - i) * c'
          = ?x mod 10 + 10 * (bigint_value (drop (i + 1) ds') + 10 ^ (length ds - (i + 1)) * c')"
      by (simp add: dr pw algebra_simps)
    also have "\<dots> = ?x mod 10 + 10 * (bigint_value (drop (i + 1) ds) + ?x div 10)"
      by (simp only: val) simp
    also have "\<dots> = bigint_value (drop i ds) + c"
      by (simp add: dr0)
    finally show ?thesis
      using len tk' ok' by simp
  qed
qed

lemma normalise_ok:
  assumes "i \<le> length ds" and "bigint_value (drop i ds) < 10 ^ (length ds - i)"
  shows "\<exists>ds'. normalise i ds = Inr ds' \<and> length ds' = length ds
           \<and> take i ds' = take i ds \<and> digits_ok (drop i ds')
           \<and> bigint_value (drop i ds') = bigint_value (drop i ds)"
proof -
  obtain ds' c' where loop: "normalise_loop i 0 ds = (ds', c')"
    by (cases "normalise_loop i 0 ds")
  from normalise_loop_spec [OF loop assms(1)]
  have len: "length ds' = length ds" and tk: "take i ds' = take i ds"
    and ok: "digits_ok (drop i ds')"
    and val: "bigint_value (drop i ds') + 10 ^ (length ds - i) * c' = bigint_value (drop i ds)"
    by simp_all
  have "c' = 0"
  proof (rule ccontr)
    assume "c' \<noteq> 0"
    then have "10 ^ (length ds - i) \<le> 10 ^ (length ds - i) * c'"
      by simp
    with val assms(2) show False
      by linarith
  qed
  with loop len tk ok val show ?thesis
    by (simp add: normalise_def)
qed

lemma normalise_fails:
  assumes "i \<le> length ds" and "10 ^ (length ds - i) \<le> bigint_value (drop i ds)"
  shows "normalise i ds = Inl AssertionFailed"
proof -
  obtain ds' c' where loop: "normalise_loop i 0 ds = (ds', c')"
    by (cases "normalise_loop i 0 ds")
  from normalise_loop_spec [OF loop assms(1)]
  have len: "length ds' = length ds"
    and ok: "digits_ok (drop i ds')"
    and val: "bigint_value (drop i ds') + 10 ^ (length ds - i) * c' = bigint_value (drop i ds)"
    by simp_all
  have "bigint_value (drop i ds') < 10 ^ (length ds - i)"
    using bigint_value_less [OF ok] len by simp
  with val assms(2) have "c' \<noteq> 0"
    by (cases "c' = 0") simp_all
  with loop show ?thesis
    by (simp add: normalise_def)
qed

subsection \<open>Adding one vector into another, position by position\<close>

lemma bigint_value_pointwise_add:
  assumes "length zs = length xs" and "length ys \<le> length xs"
    and "\<forall>k < length xs. zs ! k = xs ! k + (if k < length ys then ys ! k else 0)"
  shows "bigint_value zs = bigint_value xs + bigint_value ys"
  using assms
proof (induction xs arbitrary: ys zs)
  case Nil
  then show ?case by simp
next
  case (Cons x xs)
  from Cons.prems(1) obtain z zs' where zs: "zs = z # zs'" and len: "length zs' = length xs"
    by (cases zs) auto
  show ?case
  proof (cases ys)
    case Nil
    have "\<forall>k < length (x # xs). zs ! k = (x # xs) ! k"
      using Cons.prems(3) Nil by simp
    with Cons.prems(1) have "zs = x # xs"
      by (simp add: list_eq_iff_nth_eq)
    with Nil show ?thesis by simp
  next
    case (Cons y ys')
    have z: "z = x + y"
      using Cons.prems(3) zs Cons by (auto dest: spec [of _ 0])
    have "\<forall>k < length xs. zs' ! k = xs ! k + (if k < length ys' then ys' ! k else 0)"
    proof (intro allI impI)
      fix k assume "k < length xs"
      then have "Suc k < length (x # xs)" by simp
      with Cons.prems(3) have "zs ! Suc k = (x # xs) ! Suc k + (if Suc k < length ys then ys ! Suc k else 0)"
        by blast
      then show "zs' ! k = xs ! k + (if k < length ys' then ys' ! k else 0)"
        using zs Cons by simp
    qed
    moreover have "length ys' \<le> length xs"
      using Cons.prems(2) Cons by simp
    ultimately have "bigint_value zs' = bigint_value xs + bigint_value ys'"
      using Cons.IH len by blast
    with z zs Cons show ?thesis by simp
  qed
qed

lemma bigint_value_scale:
  "bigint_value (map (\<lambda>r. r * d) ys) = d * bigint_value ys"
  by (induction ys) (simp_all add: algebra_simps)

lemma digits_ok_nth: "digits_ok ds \<Longrightarrow> k < length ds \<Longrightarrow> ds ! k \<le> 9"
  by (simp add: digits_ok_def)

subsection \<open>The loops of addition and multiplication\<close>

lemma add_loop_spec:
  assumes "length rhs \<le> length ds"
  shows "length (add_loop i rhs ds) = length ds
         \<and> (\<forall>k < length ds. add_loop i rhs ds ! k =
               (if i \<le> k \<and> k < length rhs then (ds ! k + rhs ! k) mod 256 else ds ! k))"
  using assms
proof (induction i rhs ds rule: add_loop.induct)
  case (1 i rhs ds)
  show ?case
  proof (cases "i < length rhs")
    case False
    then show ?thesis
      by (simp add: add_loop.simps [of i rhs ds])
  next
    case True
    let ?ds1 = "ds[i := (ds ! i + rhs ! i) mod 256]"
    have "length rhs \<le> length ?ds1"
      using "1.prems" by simp
    from "1.IH" [OF True this]
    have len: "length (add_loop (i + 1) rhs ?ds1) = length ds"
      and nth: "\<And>k. k < length ds \<Longrightarrow> add_loop (i + 1) rhs ?ds1 ! k =
               (if i + 1 \<le> k \<and> k < length rhs then (?ds1 ! k + rhs ! k) mod 256 else ?ds1 ! k)"
      by simp_all
    have unf: "add_loop i rhs ds = add_loop (i + 1) rhs ?ds1"
      using True by (subst add_loop.simps) simp
    have "add_loop i rhs ds ! k =
            (if i \<le> k \<and> k < length rhs then (ds ! k + rhs ! k) mod 256 else ds ! k)"
      if "k < length ds" for k
    proof (cases "k = i")
      case True
      with nth [OF that] that \<open>i < length rhs\<close> show ?thesis
        by (simp add: unf)
    next
      case False
      with nth [OF that] that show ?thesis
        by (auto simp: unf)
    qed
    with len unf show ?thesis
      by simp
  qed
qed

lemma mul_inner_spec:
  assumes "i + length rhs \<le> length ds"
  shows "length (mul_inner i d j rhs ds) = length ds
         \<and> (\<forall>k < length ds. mul_inner i d j rhs ds ! k =
               (if i + j \<le> k \<and> k < i + length rhs
                then (ds ! k + rhs ! (k - i) * d) mod 256 else ds ! k))"
  using assms
proof (induction i d j rhs ds rule: mul_inner.induct)
  case (1 i d j rhs ds)
  show ?case
  proof (cases "j < length rhs")
    case False
    then show ?thesis
      by (simp add: mul_inner.simps [of i d j rhs ds])
  next
    case True
    let ?ds1 = "ds[i + j := (ds ! (i + j) + rhs ! j * d) mod 256]"
    have "i + length rhs \<le> length ?ds1"
      using "1.prems" by simp
    from "1.IH" [OF True this]
    have len: "length (mul_inner i d (j + 1) rhs ?ds1) = length ds"
      and nth: "\<And>k. k < length ds \<Longrightarrow> mul_inner i d (j + 1) rhs ?ds1 ! k =
               (if i + (j + 1) \<le> k \<and> k < i + length rhs
                then (?ds1 ! k + rhs ! (k - i) * d) mod 256 else ?ds1 ! k)"
      by simp_all
    have unf: "mul_inner i d j rhs ds = mul_inner i d (j + 1) rhs ?ds1"
      using True by (subst mul_inner.simps) simp
    have "mul_inner i d j rhs ds ! k =
            (if i + j \<le> k \<and> k < i + length rhs
             then (ds ! k + rhs ! (k - i) * d) mod 256 else ds ! k)"
      if "k < length ds" for k
    proof (cases "k = i + j")
      case True
      with nth [OF that] that \<open>j < length rhs\<close> show ?thesis
        by (simp add: unf)
    next
      case False
      with nth [OF that] that show ?thesis
        by (auto simp: unf)
    qed
    with len unf show ?thesis
      by simp
  qed
qed

subsection \<open>What addition and multiplication compute\<close>

lemma add_assign_eq:
  assumes a: "digits_ok a" and b: "digits_ok b"
  shows "add_assign a b =
           (if bigint_value a + bigint_value b < 10 ^ max (length b + 1) (length a)
            then Inr (decimal (bigint_value a + bigint_value b))
            else Inl AssertionFailed)"
proof -
  let ?e = "expand (length b + 1) a"
  let ?s = "add_loop 0 b ?e"
  have le: "length b \<le> length ?e"
    by (simp add: length_expand)
  have eok: "digits_ok ?e"
    using a by (rule digits_ok_expand)
  from add_loop_spec [OF le, of 0]
  have len: "length ?s = length ?e"
    and nth: "\<And>k. k < length ?e \<Longrightarrow>
                ?s ! k = (if k < length b then (?e ! k + b ! k) mod 256 else ?e ! k)"
    by simp_all
  have "?s ! k = ?e ! k + (if k < length b then b ! k else 0)" if "k < length ?e" for k
  proof (cases "k < length b")
    case True
    have "?e ! k \<le> 9" "b ! k \<le> 9"
      using digits_ok_nth [OF eok that] digits_ok_nth [OF b True] by simp_all
    then have "(?e ! k + b ! k) mod 256 = ?e ! k + b ! k"
      by simp
    with nth [OF that] True show ?thesis by simp
  next
    case False
    with nth [OF that] show ?thesis by simp
  qed
  then have "bigint_value ?s = bigint_value ?e + bigint_value b"
    using bigint_value_pointwise_add [OF len le] by blast
  then have val: "bigint_value ?s = bigint_value a + bigint_value b"
    by simp
  have slen: "length ?s = max (length b + 1) (length a)"
    using len by (simp add: length_expand)
  show ?thesis
  proof (cases "bigint_value a + bigint_value b < 10 ^ max (length b + 1) (length a)")
    case True
    then have "bigint_value (drop 0 ?s) < 10 ^ (length ?s - 0)"
      using val slen by simp
    from normalise_ok [OF _ this]
    obtain ds' where n: "normalise 0 ?s = Inr ds'" and ok: "digits_ok ds'"
      and v: "bigint_value ds' = bigint_value ?s"
      by auto
    have "contract ds' = decimal (bigint_value a + bigint_value b)"
      using contract_decimal [OF ok] v val by simp
    with n True show ?thesis
      by (simp add: add_assign_def)
  next
    case False
    then have "10 ^ (length ?s - 0) \<le> bigint_value (drop 0 ?s)"
      using val slen by simp
    from normalise_fails [OF _ this] False show ?thesis
      by (simp add: add_assign_def)
  qed
qed

lemma mul_inner_value:
  assumes ds: "digits_ok ds" and rhs: "digits_ok rhs" and d: "d \<le> 9"
    and le: "i + length rhs \<le> length ds"
  shows "length (mul_inner i d 0 rhs ds) = length ds"
    and "take i (mul_inner i d 0 rhs ds) = take i ds"
    and "bigint_value (drop i (mul_inner i d 0 rhs ds))
           = bigint_value (drop i ds) + d * bigint_value rhs"
proof -
  let ?r = "mul_inner i d 0 rhs ds"
  from mul_inner_spec [OF le, of d 0]
  have len: "length ?r = length ds"
    and nth: "\<And>k. k < length ds \<Longrightarrow>
                ?r ! k = (if i \<le> k \<and> k < i + length rhs
                          then (ds ! k + rhs ! (k - i) * d) mod 256 else ds ! k)"
    by simp_all
  show "length ?r = length ds" by (rule len)
  show "take i ?r = take i ds"
    using len nth le by (simp add: list_eq_iff_nth_eq)
  let ?ys = "map (\<lambda>r. r * d) rhs"
  have dlen: "length (drop i ?r) = length (drop i ds)"
    using len by simp
  have "bigint_value (drop i ?r) = bigint_value (drop i ds) + bigint_value ?ys"
  proof (rule bigint_value_pointwise_add [OF dlen])
    show "length ?ys \<le> length (drop i ds)"
      using le by simp
    show "\<forall>k < length (drop i ds).
            drop i ?r ! k = drop i ds ! k + (if k < length ?ys then ?ys ! k else 0)"
    proof (intro allI impI)
      fix k assume "k < length (drop i ds)"
      then have k: "i + k < length ds" by simp
      show "drop i ?r ! k = drop i ds ! k + (if k < length ?ys then ?ys ! k else 0)"
      proof (cases "k < length rhs")
        case True
        have "ds ! (i + k) \<le> 9" "rhs ! k \<le> 9"
          using digits_ok_nth [OF ds k] digits_ok_nth [OF rhs True] by simp_all
        moreover from this d have "rhs ! k * d \<le> 9 * 9"
          by (intro mult_mono) simp_all
        ultimately have "(ds ! (i + k) + rhs ! k * d) mod 256 = ds ! (i + k) + rhs ! k * d"
          by simp
        with nth [OF k] True k len show ?thesis by simp
      next
        case False
        with nth [OF k] k len show ?thesis by simp
      qed
    qed
  qed
  then show "bigint_value (drop i ?r) = bigint_value (drop i ds) + d * bigint_value rhs"
    by (simp add: bigint_value_scale)
qed

lemma mul_outer_spec:
  assumes "digits_ok ds" and "digits_ok rhs" and "k + length rhs \<le> length ds"
    and "bigint_value (drop k ds) + bigint_value rhs \<le> 10 ^ (length ds - k)"
  shows "\<exists>ds'. mul_outer k rhs ds = Inr ds' \<and> length ds' = length ds \<and> digits_ok ds'
           \<and> bigint_value ds'
               = bigint_value (take k ds) * bigint_value rhs + 10 ^ k * bigint_value (drop k ds)"
  using assms
proof (induction k arbitrary: ds)
  case 0
  then show ?case by simp
next
  case (Suc i)
  let ?R = "bigint_value rhs"
  let ?H = "bigint_value (drop (Suc i) ds)"
  let ?c = "length ds - Suc i"
  let ?d = "ds ! i"
  let ?ds1 = "ds[i := 0]"
  let ?ds2 = "mul_inner i ?d 0 rhs ?ds1"
  have i: "i < length ds"
    using Suc.prems(3) by simp
  have d: "?d \<le> 9"
    using digits_ok_nth [OF Suc.prems(1) i] .
  have ok1: "digits_ok ?ds1"
    using Suc.prems(1) by (auto simp: digits_ok_def dest: set_update_subset_insert [THEN subsetD])
  have le1: "i + length rhs \<le> length ?ds1"
    using Suc.prems(3) by simp
  have dr1: "drop i ?ds1 = 0 # drop (Suc i) ds"
    using i by (simp flip: Cons_nth_drop_Suc [of i "ds[i := 0]"])
  have len2: "length ?ds2 = length ds"
    and tk2: "take i ?ds2 = take i ds"
    and val2: "bigint_value (drop i ?ds2) = 10 * ?H + ?d * ?R"
    using mul_inner_value [OF ok1 Suc.prems(2) d le1] by (simp_all add: dr1)
  have H: "?H < 10 ^ ?c"
    using bigint_value_less [OF digits_ok_drop [OF Suc.prems(1)], of "Suc i"] by simp
  have pw: "(10::nat) ^ (length ds - i) = 10 * 10 ^ ?c"
    using i by (simp add: Suc_diff_Suc flip: power_Suc)
  have dR: "?d * ?R \<le> 9 * ?R"
    using d by simp
  have bound: "10 * ?H + ?d * ?R < 10 ^ (length ?ds2 - i)"
  proof (cases "?R = 0")
    case True
    with H show ?thesis by (simp add: len2 pw)
  next
    case False
    then have "10 * ?H + ?d * ?R < 10 * (?H + ?R)"
      using dR by simp
    also have "\<dots> \<le> 10 * 10 ^ ?c"
      using Suc.prems(4) by simp
    finally show ?thesis by (simp add: len2 pw)
  qed
  have "i \<le> length ?ds2"
    using i len2 by simp
  from normalise_ok [OF this] bound val2
  obtain ds3 where n: "normalise i ?ds2 = Inr ds3" and len3: "length ds3 = length ds"
    and tk3: "take i ds3 = take i ds" and ok3d: "digits_ok (drop i ds3)"
    and val3: "bigint_value (drop i ds3) = 10 * ?H + ?d * ?R"
    by (auto simp: len2 tk2)
  have "digits_ok (take i ds3 @ drop i ds3)"
    using ok3d digits_ok_take [OF Suc.prems(1), of i] by (simp add: tk3)
  then have ok3: "digits_ok ds3"
    by simp
  have le3: "i + length rhs \<le> length ds3"
    using Suc.prems(3) len3 by simp
  have "10 * ?H + ?d * ?R + ?R \<le> 10 * (?H + ?R)"
    using dR by simp
  also have "\<dots> \<le> 10 * 10 ^ ?c"
    using Suc.prems(4) by simp
  finally have cap3: "bigint_value (drop i ds3) + ?R \<le> 10 ^ (length ds3 - i)"
    by (simp add: val3 len3 pw)
  from Suc.IH [OF ok3 Suc.prems(2) le3 cap3]
  obtain ds' where out: "mul_outer i rhs ds3 = Inr ds'" and len': "length ds' = length ds"
    and ok': "digits_ok ds'"
    and val': "bigint_value ds' = bigint_value (take i ds) * ?R + 10 ^ i * (10 * ?H + ?d * ?R)"
    by (auto simp: len3 tk3 val3)
  have "take (Suc i) ds = take i ds @ [?d]"
    using i by (rule take_Suc_conv_app_nth)
  then have "bigint_value (take (Suc i) ds) = bigint_value (take i ds) + 10 ^ i * ?d"
    using i by (simp add: bigint_value_append)
  with val' have "bigint_value ds' = bigint_value (take (Suc i) ds) * ?R + 10 ^ Suc i * ?H"
    by (simp add: algebra_simps)
  with n out len' ok' show ?case
    by simp
qed

lemma mul_assign_eq:
  assumes a: "digits_ok a" and b: "digits_ok b"
  shows "mul_assign a b = Inr (decimal (bigint_value a * bigint_value b))"
proof -
  let ?e = "expand (length a + length b + 1) a"
  have ok: "digits_ok ?e"
    using a by (rule digits_ok_expand)
  have le: "length a + length b \<le> length ?e"
    by (simp add: expand_def)
  have "bigint_value b < 10 ^ length b"
    using b by (rule bigint_value_less)
  then have cap: "bigint_value (drop (length a) ?e) + bigint_value b \<le> 10 ^ (length ?e - length a)"
    by (simp add: expand_def)
  from mul_outer_spec [OF ok b le cap]
  obtain ds' where out: "mul_outer (length a) b ?e = Inr ds'" and ok': "digits_ok ds'"
    and val: "bigint_value ds' = bigint_value a * bigint_value b"
    by (auto simp: expand_def)
  show ?thesis
    using out contract_decimal [OF ok'] val by (simp add: mul_assign_def)
qed

subsection \<open>The constructor and digit access\<close>

lemma sprintf_llu_decimal:
  "sprintf_llu n = map (\<lambda>d. char_of (48 + d)) (rev (decimal n))"
proof (induction n rule: sprintf_llu.induct)
  case (1 n)
  show ?case
  proof (cases "n = 0")
    case True
    then show ?thesis by (simp add: sprintf_llu.simps [of 0])
  next
    case False
    with 1 show ?thesis
      by (subst sprintf_llu.simps, subst decimal.simps) simp
  qed
qed

lemma digit_char_inverse:
  "digits_ok ds \<Longrightarrow> map (\<lambda>c. (of_char c :: nat) - 48) (map (\<lambda>d. char_of (48 + d)) ds) = ds"
  by (induction ds) (auto simp: digits_ok_def)

lemma Bigint_eq:
  "Bigint val extradigits filldigit =
     replicate extradigits (nat (filldigit mod 256)) @ decimal (unat val)"
  using digit_char_inverse [OF digits_ok_decimal, of "unat val"]
  by (simp add: Bigint_def sprintf_llu_decimal rev_map)

lemma digit_decimal:
  assumes "0 \<le> i"
  shows "digit (decimal n) i = int ((n div 10 ^ nat i) mod 10)"
proof (cases "nat i < length (decimal n)")
  case True
  with assms show ?thesis
    by (simp add: digit_def decimal_nth)
next
  case False
  have "n < 10 ^ length (decimal n)"
    using bigint_value_less [OF digits_ok_decimal, of n] by simp
  also have "\<dots> \<le> 10 ^ nat i"
    using False by (simp add: power_increasing)
  finally have "n div 10 ^ nat i = 0"
    by simp
  with False show ?thesis
    by (simp add: digit_def)
qed

lemma digit_outside:
  "i < 0 \<or> int (length ds) \<le> i \<Longrightarrow> digit ds i = 0"
  by (auto simp: digit_def)

subsection \<open>The representation invariant\<close>

lemma normalise_digits_ok:
  assumes "normalise i ds = Inr ds'" and "i \<le> length ds"
  shows "digits_ok (drop i ds')"
proof -
  obtain r c where loop: "normalise_loop i 0 ds = (r, c)"
    by (cases "normalise_loop i 0 ds")
  with assms(1) have "r = ds'"
    by (simp add: normalise_def split: if_splits)
  with normalise_loop_spec [OF loop assms(2)] show ?thesis
    by simp
qed

lemma add_assign_inv:
  assumes "add_assign a b = Inr c"
  shows "bigint_inv c"
proof -
  let ?s = "add_loop 0 b (expand (length b + 1) a)"
  from assms obtain d where n: "normalise 0 ?s = Inr d" and c: "c = contract d"
    by (auto simp: add_assign_def split: sum.splits)
  from normalise_digits_ok [OF n] have "digits_ok d"
    by simp
  then show ?thesis
    unfolding c by (rule bigint_inv_contract)
qed

lemma Bigint_inv_iff:
  "bigint_inv (Bigint val extradigits filldigit) \<longleftrightarrow>
     extradigits = 0 \<or> (filldigit mod 256 \<le> 9 \<and> (val \<noteq> 0 \<or> filldigit mod 256 \<noteq> 0))"
proof (cases "extradigits = 0")
  case True
  then show ?thesis
    by (simp add: Bigint_eq bigint_inv_decimal)
next
  case False
  let ?F = "nat (filldigit mod 256)"
  have F9: "?F \<le> 9 \<longleftrightarrow> filldigit mod 256 \<le> 9"
    by linarith
  have "0 \<le> filldigit mod 256"
    by simp
  then have F0: "?F \<noteq> 0 \<longleftrightarrow> filldigit mod 256 \<noteq> 0"
    by linarith
  have ok: "digits_ok (replicate extradigits ?F) \<longleftrightarrow> ?F \<le> 9"
    using False by (auto simp: digits_ok_def)
  show ?thesis
  proof (cases "val = 0")
    case True
    then show ?thesis
      using False ok F9 F0 by (simp add: Bigint_eq bigint_inv_def)
  next
    case nz: False
    then have "unat val \<noteq> 0"
      by (simp add: unat_eq_0)
    then show ?thesis
      using False ok F9 nz
      by (simp add: Bigint_eq bigint_inv_def digits_ok_decimal last_decimal)
  qed
qed

lemma mul_outer_digits_ok:
  "mul_outer (Suc k) rhs ds = Inr d \<Longrightarrow> digits_ok d"
proof (induction k arbitrary: ds)
  case 0
  then obtain d1 where n: "normalise 0 (mul_inner 0 (ds ! 0) 0 rhs (ds[0 := 0])) = Inr d1"
    and d: "d = d1"
    by (auto split: sum.splits)
  from normalise_digits_ok [OF n] show ?case
    by (simp add: d)
next
  case (Suc k)
  then obtain d1 where "mul_outer (Suc k) rhs d1 = Inr d"
    by (auto split: sum.splits)
  then show ?case
    by (rule Suc.IH)
qed

lemma mul_assign_inv:
  assumes "mul_assign a b = Inr c"
  shows "bigint_inv c"
proof -
  let ?e = "expand (length a + length b + 1) a"
  from assms obtain d where out: "mul_outer (length a) b ?e = Inr d" and c: "c = contract d"
    by (auto simp: mul_assign_def split: sum.splits)
  have "digits_ok d"
  proof (cases "length a")
    case 0
    with out show ?thesis
      by (auto simp: expand_def digits_ok_def)
  next
    case (Suc k)
    with out show ?thesis
      by (auto intro: mul_outer_digits_ok)
  qed
  then show ?thesis
    unfolding c by (rule bigint_inv_contract)
qed

text \<open>
  Claim C7 says that every \<^verbatim>\<open>Bigint\<close> produced by construction satisfies the
  representation invariant. It fails at the constructor call \<^verbatim>\<open>Bigint(0, 1, 0)\<close>: the
  value zero contributes no digit, the one padding digit is a zero, and the result is
  the vector with the single digit 0, which has a most significant zero digit.
\<close>

theorem Bigint_padding_top_zero:
  "Bigint 0 1 0 = [0] \<and> \<not> bigint_inv (Bigint 0 1 0)"
  by (simp add: Bigint_eq bigint_inv_def)

text \<open>
  Claim C7, amended. The constructor gives a \<^verbatim>\<open>Bigint\<close> that satisfies the
  representation invariant (every digit in 0..9, no most significant zero digit, zero as
  the empty vector) exactly when there is no padding, or the fill digit as stored is in
  0..9 and the value or the fill digit is not zero. Every \<^verbatim>\<open>Bigint\<close> that
  \<^verbatim>\<open>operator+=\<close> or \<^verbatim>\<open>operator*=\<close> returns satisfies the invariant, and
  \<^verbatim>\<open>operator*=\<close> does return on operands with digits in 0..9; a vector that
  satisfies the invariant and has the value zero is empty; and \<^verbatim>\<open>digit(i)\<close> is 0 for
  every \<open>i\<close> that is negative or at or beyond the stored length.
\<close>

theorem bigint_invariant:
  "(bigint_inv (Bigint val extradigits filldigit) \<longleftrightarrow>
      extradigits = 0 \<or> (filldigit mod 256 \<le> 9 \<and> (val \<noteq> 0 \<or> filldigit mod 256 \<noteq> 0)))
   \<and> (add_assign a b = Inr c \<longrightarrow> bigint_inv c)
   \<and> (mul_assign a b = Inr c \<longrightarrow> bigint_inv c)
   \<and> (digits_ok a \<and> digits_ok b \<longrightarrow> (\<exists>c'. mul_assign a b = Inr c'))
   \<and> (bigint_inv ds \<and> bigint_value ds = 0 \<longrightarrow> ds = [])
   \<and> (i < 0 \<or> int (length ds) \<le> i \<longrightarrow> digit ds i = 0)"
proof -
  have "ds = []" if "bigint_inv ds" and "bigint_value ds = 0"
    using decimal_bigint_value [OF that(1)] that(2) by simp
  then show ?thesis
    using Bigint_inv_iff [of val extradigits filldigit] add_assign_inv [of a b c]
      mul_assign_inv [of a b c] mul_assign_eq [of a b] digit_outside [of i ds]
    by auto
qed

theorem bigint_invariant_witness:
  "bigint_inv (Bigint 5 3 0)
   \<and> add_assign [5] [7] = Inr [2, 1] \<and> bigint_inv [2, 1]
   \<and> mul_assign [5] [7] = Inr [5, 3] \<and> bigint_inv [5, 3]
   \<and> digits_ok [5] \<and> digits_ok [7] \<and> (\<exists>c'. mul_assign [5] [7] = Inr c')
   \<and> bigint_inv [] \<and> bigint_value [] = 0
   \<and> digit [1, 2] 2 = 0 \<and> digit [1, 2] (- 1) = 0"
proof -
  have s: "add_assign [5] [7] = Inr [2, 1]"
    by code_simp
  have m: "mul_assign [5] [7] = Inr [5, 3]"
    by code_simp
  have ok: "digits_ok [5]" "digits_ok [7]" "bigint_inv []"
    by (simp_all add: digits_ok_def bigint_inv_def)
  from bigint_invariant [of 5 3 0 "[5]" "[7]" "[2, 1]" "[1, 2]" 2]
    bigint_invariant [of 5 3 0 "[5]" "[7]" "[5, 3]" "[1, 2]" "- 1"]
    bigint_invariant [of 5 3 0 "[5]" "[7]" "[2, 1]" "[]" 0] s m ok
  show ?thesis
    by simp
qed

subsection \<open>The powers\<close>

lemma cache_ok_init: "cache_ok init_caches"
  by (simp add: cache_ok_def init_caches_def)

lemma cache_ok_lookup:
  assumes "cache_ok s" and "v = 2 \<or> v = 5" and "powers v s n = Some p"
  shows "p = decimal (nat v ^ unat n)"
  using assms by (auto simp: cache_ok_def powers_def)

lemma cache_ok_update:
  assumes "cache_ok s" and "v = 2 \<or> v = 5"
  shows "cache_ok (powers_update v n (decimal (nat v ^ unat n)) s)"
  using assms by (auto simp: cache_ok_def powers_update_def)

lemma power_of_correct:
  assumes "v = 2 \<or> v = 5" and "cache_ok s"
  shows "\<exists>s'. power_of v n s = Inr (decimal (nat v ^ unat n), s') \<and> cache_ok s'"
  using assms
proof (induction v n s rule: power_of.induct)
  case (1 v n s)
  note v = \<open>v = 2 \<or> v = 5\<close>
  show ?case
  proof (cases "powers v s n")
    case (Some p)
    with cache_ok_lookup [OF "1.prems"(2) v Some] v "1.prems"(2) show ?thesis
      by (subst power_of.simps) auto
  next
    case None
    have nn: "\<not> \<not> (v = 2 \<or> v = 5)"
      using v by simp
    show ?thesis
    proof (cases "n \<noteq> lowbit n")
      case True
      from "1.IH"(1) [OF nn None True v "1.prems"(2)]
      obtain s1 where a: "power_of v (n - lowbit n) s = Inr (decimal (nat v ^ unat (n - lowbit n)), s1)"
        and ok1: "cache_ok s1"
        by blast
      from "1.IH"(2) [OF nn None True a refl v ok1]
      obtain s2 where b: "power_of v (lowbit n) s1 = Inr (decimal (nat v ^ unat (lowbit n)), s2)"
        and ok2: "cache_ok s2"
        by blast
      have "nat v ^ unat (n - lowbit n) * nat v ^ unat (lowbit n) = nat v ^ unat n"
        by (simp add: unat_lowbit_split flip: power_add)
      then have m: "mul_assign (decimal (nat v ^ unat (n - lowbit n))) (decimal (nat v ^ unat (lowbit n)))
                 = Inr (decimal (nat v ^ unat n))"
        by (simp add: mul_assign_eq digits_ok_decimal)
      have "power_of v n s
              = Inr (decimal (nat v ^ unat n), powers_update v n (decimal (nat v ^ unat n)) s2)"
        using v None True a b m by (subst power_of.simps) auto
      with cache_ok_update [OF ok2 v] show ?thesis
        by blast
    next
      case False
      show ?thesis
      proof (cases "1 < n")
        case True
        from "1.IH"(3) [OF nn None False True v "1.prems"(2)]
        obtain s1 where a: "power_of v (n div 2) s = Inr (decimal (nat v ^ unat (n div 2)), s1)"
          and ok1: "cache_ok s1"
          by blast
        have "unat (n div 2) + unat (n div 2) = unat n"
          using False True by (intro unat_half_double) simp_all
        then have "nat v ^ unat (n div 2) * nat v ^ unat (n div 2) = nat v ^ unat n"
          by (simp flip: power_add)
        then have m: "mul_assign (decimal (nat v ^ unat (n div 2))) (decimal (nat v ^ unat (n div 2)))
                   = Inr (decimal (nat v ^ unat n))"
          by (simp add: mul_assign_eq digits_ok_decimal)
        have "power_of v n s
                = Inr (decimal (nat v ^ unat n), powers_update v n (decimal (nat v ^ unat n)) s1)"
          using v None False True a m by (subst power_of.simps) auto
        with cache_ok_update [OF ok1 v] show ?thesis
          by blast
      next
        case n1: False
        then have n01: "n = 0 \<or> n = 1"
          by (rule word_not_gt_1)
        have "Bigint (word_of_int (if n = 1 then v else 1)) 0 0 = decimal (nat v ^ unat n)"
          using n01 v by (auto simp: Bigint_eq)
        then have "power_of v n s
                = Inr (decimal (nat v ^ unat n), powers_update v n (decimal (nat v ^ unat n)) s)"
          using v None False n1 by (subst power_of.simps) (simp add: Let_def)
        with cache_ok_update [OF "1.prems"(2) v] show ?thesis
          by blast
      qed
    qed
  qed
qed

lemma unat_pred:
  fixes n :: "32 word"
  assumes "n \<noteq> 0"
  shows "Suc (unat (n - 1)) = unat n"
proof -
  have "0 < unat n"
    using assms by (simp add: unat_gt_0)
  then show ?thesis
    using assms by (simp add: unat_minus_one)
qed

text \<open>
  Claim C5. For base 2 and base 5 and every exponent \<open>n\<close> (an \<^verbatim>\<open>unsigned\<close>),
  \<^verbatim>\<open>power_of\<close> returns, from any maps that satisfy their invariant, a \<^verbatim>\<open>Bigint\<close> that
  satisfies the representation invariant and whose value is exactly \<open>base^n\<close>, and it
  leaves maps that satisfy the invariant. Equivalently, for \<open>n \<ge> 1\<close> the result for
  \<open>n\<close> is the result for \<open>n - 1\<close> multiplied, by \<^verbatim>\<open>operator*=\<close>, by the
  \<^verbatim>\<open>Bigint\<close> of the base.
\<close>

theorem power_of_value:
  "(v = 2 \<or> v = 5) \<and> cache_ok s \<longrightarrow>
     (\<exists>a s'. power_of v n s = Inr (a, s') \<and> bigint_inv a
         \<and> bigint_value a = nat v ^ unat n \<and> cache_ok s')
     \<and> (n \<noteq> 0 \<longrightarrow>
          (\<exists>a s1 b s2. power_of v (n - 1) s = Inr (a, s1) \<and> power_of v n s1 = Inr (b, s2)
              \<and> mul_assign a (Bigint (word_of_int v) 0 0) = Inr b))"
proof (intro impI conjI)
  assume h: "(v = 2 \<or> v = 5) \<and> cache_ok s"
  then have v: "v = 2 \<or> v = 5" and ok: "cache_ok s"
    by simp_all
  from power_of_correct [OF v ok, of n]
  show "\<exists>a s'. power_of v n s = Inr (a, s') \<and> bigint_inv a
         \<and> bigint_value a = nat v ^ unat n \<and> cache_ok s'"
    by (auto simp: bigint_inv_decimal)
  assume n: "n \<noteq> 0"
  from power_of_correct [OF v ok, of "n - 1"]
  obtain s1 where a: "power_of v (n - 1) s = Inr (decimal (nat v ^ unat (n - 1)), s1)"
    and ok1: "cache_ok s1"
    by blast
  from power_of_correct [OF v ok1, of n]
  obtain s2 where b: "power_of v n s1 = Inr (decimal (nat v ^ unat n), s2)"
    by blast
  have B: "Bigint (word_of_int v) 0 0 = decimal (nat v)"
    using v by (auto simp: Bigint_eq)
  have "nat v ^ unat (n - 1) * nat v = nat v ^ Suc (unat (n - 1))"
    by simp
  then have "nat v ^ unat (n - 1) * nat v = nat v ^ unat n"
    by (simp only: unat_pred [OF n])
  then have "mul_assign (decimal (nat v ^ unat (n - 1))) (Bigint (word_of_int v) 0 0)
               = Inr (decimal (nat v ^ unat n))"
    by (simp add: B mul_assign_eq digits_ok_decimal)
  with a b show "\<exists>a s1 b s2. power_of v (n - 1) s = Inr (a, s1)
      \<and> power_of v n s1 = Inr (b, s2) \<and> mul_assign a (Bigint (word_of_int v) 0 0) = Inr b"
    by blast
qed

theorem power_of_value_witness:
  "(\<exists>a s'. power_of 5 3 init_caches = Inr (a, s') \<and> bigint_inv a
       \<and> bigint_value a = 125 \<and> cache_ok s')
   \<and> (\<exists>a s1 b s2. power_of 5 2 init_caches = Inr (a, s1) \<and> power_of 5 3 s1 = Inr (b, s2)
         \<and> mul_assign a (Bigint 5 0 0) = Inr b)"
proof -
  have h: "((5::int) = 2 \<or> (5::int) = 5) \<and> cache_ok init_caches"
    by (simp add: cache_ok_init)
  have e: "nat 5 ^ unat (3 :: 32 word) = 125" "(3 :: 32 word) - 1 = 2"
    "word_of_int 5 = (5 :: 64 word)"
    by simp_all
  have nz: "(3 :: 32 word) \<noteq> 0"
    by simp
  from power_of_value [of 5 init_caches 3] h nz show ?thesis
    unfolding e by blast
qed

subsection \<open>Scaling and rounding\<close>

lemma unat_word_of_int_32:
  "0 \<le> e \<Longrightarrow> e < 2 ^ 32 \<Longrightarrow> unat (word_of_int e :: 32 word) = nat e"
  by (simp add: unat_eq_nat_uint take_bit_int_eq_self uint_word_of_int_eq)

lemma fp_scale_eq:
  assumes "cache_ok s" and "- (2 ^ 31) \<le> e" and "e < 2 ^ 31"
  shows "\<exists>s'. fp_scale m e s
            = Inr ((decimal (scaled_value (unat m) e), if e < 0 then e else 0), s')
          \<and> cache_ok s'"
proof -
  have B: "Bigint m 0 0 = decimal (unat m)"
    by (simp add: Bigint_eq)
  consider "e > 0" | "e < 0" | "e = 0" by linarith
  then show ?thesis
  proof cases
    case 1
    with assms have "unat (word_of_int e :: 32 word) = nat e"
      by (intro unat_word_of_int_32) simp_all
    with power_of_correct [of 2 s "word_of_int e"] assms(1)
    obtain s' where p: "power_of 2 (word_of_int e) s = Inr (decimal (2 ^ nat e), s')"
      and ok: "cache_ok s'"
      by auto
    have "mul_assign (decimal (unat m)) (decimal (2 ^ nat e))
            = Inr (decimal (unat m * 2 ^ nat e))"
      by (simp add: mul_assign_eq digits_ok_decimal)
    with 1 p ok show ?thesis
      by (simp add: fp_scale_def B scaled_value_def)
  next
    case 2
    with assms have "unat (word_of_int (- e) :: 32 word) = nat (- e)"
      by (intro unat_word_of_int_32) simp_all
    with power_of_correct [of 5 s "word_of_int (- e)"] assms(1)
    obtain s' where p: "power_of 5 (word_of_int (- e)) s = Inr (decimal (5 ^ nat (- e)), s')"
      and ok: "cache_ok s'"
      by auto
    have "mul_assign (decimal (unat m)) (decimal (5 ^ nat (- e)))
            = Inr (decimal (unat m * 5 ^ nat (- e)))"
      by (simp add: mul_assign_eq digits_ok_decimal)
    with 2 p ok show ?thesis
      by (simp add: fp_scale_def B scaled_value_def)
  next
    case 3
    with assms(1) show ?thesis
      by (simp add: fp_scale_def B scaled_value_def)
  qed
qed

lemma Bigint_round_up:
  "Bigint 5 k 0 = replicate k 0 @ [5]"
  by (simp add: Bigint_eq decimal.simps [of 5] )

lemma Bigint_round_even:
  "Bigint 4 k 9 = replicate k 9 @ [4]"
  by (simp add: Bigint_eq decimal.simps [of 4])

lemma fp_round_eq:
  assumes "int (length (decimal V)) - 1 - p = int k"
  shows "fp_round (decimal V) (int (length (decimal V)) - 1) p =
           (if 5 \<le> (V div 10 ^ k) mod 10 then
              (let inc = (if odd ((V div 10 ^ (k + 1)) mod 10) then 5 * 10 ^ k else 5 * 10 ^ k - 1)
               in if V + inc < 10 ^ max (k + 2) (length (decimal V))
                  then Inr (decimal (V + inc)) else Inl AssertionFailed)
            else Inr (decimal V))"
proof -
  have v5: "bigint_value (replicate k 0 @ [5]) = 5 * 10 ^ k"
    by (simp add: bigint_value_append)
  have "bigint_value (replicate k 9 @ [4]) + 1 = 5 * 10 ^ k"
    using bigint_value_replicate_9 [of k] by (simp add: bigint_value_append)
  then have v4: "bigint_value (replicate k 9 @ [4]) = 5 * 10 ^ k - 1"
    by simp
  have ok5: "digits_ok (replicate k 0 @ [5])" and ok4: "digits_ok (replicate k 9 @ [4])"
    by (simp_all add: digits_ok_def)
  have d0: "digit (decimal V) (int k) = int ((V div 10 ^ k) mod 10)"
    using digit_decimal [of "int k" V] by simp
  have d1: "digit (decimal V) (int k + 1) = int ((V div 10 ^ (k + 1)) mod 10)"
    using digit_decimal [of "int k + 1" V] by (simp add: nat_add_distrib)
  have c0: "(5 \<le> digit (decimal V) (int k)) = (5 \<le> (V div 10 ^ k) mod 10)"
    unfolding d0 by linarith
  have c1: "odd (digit (decimal V) (int k + 1)) = odd ((V div 10 ^ (k + 1)) mod 10)"
    unfolding d1 by simp
  have len5: "length (replicate k (0::nat) @ [5]) + 1 = k + 2"
    and len4: "length (replicate k (9::nat) @ [4]) + 1 = k + 2"
    by simp_all
  have up: "add_assign (decimal V) (Bigint 5 k 0) =
              (if V + 5 * 10 ^ k < 10 ^ max (k + 2) (length (decimal V))
               then Inr (decimal (V + 5 * 10 ^ k)) else Inl AssertionFailed)"
    unfolding Bigint_round_up add_assign_eq [OF digits_ok_decimal ok5] v5 len5
    by simp
  have ev: "add_assign (decimal V) (Bigint 4 k 9) =
              (if V + (5 * 10 ^ k - 1) < 10 ^ max (k + 2) (length (decimal V))
               then Inr (decimal (V + (5 * 10 ^ k - 1))) else Inl AssertionFailed)"
    unfolding Bigint_round_even add_assign_eq [OF digits_ok_decimal ok4] v4 len4
    by simp
  show ?thesis
  proof (cases "5 \<le> (V div 10 ^ k) mod 10")
    case False
    then show ?thesis
      unfolding fp_round_def assms c0 by simp
  next
    case True
    show ?thesis
    proof (cases "odd ((V div 10 ^ (k + 1)) mod 10)")
      case odd: True
      have "fp_round (decimal V) (int (length (decimal V)) - 1) p
              = add_assign (decimal V) (Bigint 5 k 0)"
        unfolding fp_round_def assms using True odd by (simp add: c0 c1)
      with True odd show ?thesis
        by (simp add: up)
    next
      case even: False
      have "fp_round (decimal V) (int (length (decimal V)) - 1) p
              = add_assign (decimal V) (Bigint 4 k 9)"
        unfolding fp_round_def assms using True even by (simp add: c0 c1)
      with True even show ?thesis
        by (simp add: ev)
    qed
  qed
qed

lemma fp_btod_eq:
  assumes "cache_ok s" and "- (2 ^ 31) \<le> e" and "e < 2 ^ 31"
  shows "\<exists>s'. cache_ok s' \<and>
           fp_btod m e p s =
             (case fp_round (decimal (scaled_value (unat m) e))
                     (int (length (decimal (scaled_value (unat m) e))) - 1) p of
                Inl err \<Rightarrow> Inl err
              | Inr val' \<Rightarrow>
                  Inr (fp_format val' (int (length (decimal (scaled_value (unat m) e))) - 1) p
                         ((if e < 0 then e else 0)
                            + (int (length (decimal (scaled_value (unat m) e))) - 1)), s'))"
proof -
  from fp_scale_eq [OF assms, of m]
  obtain s' where sc: "fp_scale m e s
      = Inr ((decimal (scaled_value (unat m) e), if e < 0 then e else 0), s')"
    and ok: "cache_ok s'"
    by blast
  show ?thesis
    using ok by (intro exI [of _ s']) (simp add: fp_btod_def sc ndigits_def Let_def)
qed

lemma fp_btod_fails:
  assumes "cache_ok s" and "- (2 ^ 31) \<le> e" and "e < 2 ^ 31"
    and V: "V = scaled_value (unat m) e"
    and lo: "10 ^ (k + nat p) \<le> V" and hi: "V < 10 ^ Suc (k + nat p)"
    and p: "1 \<le> p"
    and d0: "5 \<le> (V div 10 ^ k) mod 10"
    and d1: "odd ((V div 10 ^ (k + 1)) mod 10)"
    and over: "10 ^ Suc (k + nat p) \<le> V + 5 * 10 ^ k"
  shows "fp_btod m e p s = Inl AssertionFailed"
proof -
  have len: "length (decimal V) = Suc (k + nat p)"
    using lo hi by (rule length_decimal_eq)
  have pos: "int (length (decimal V)) - 1 - p = int k"
    using p by (simp add: len)
  have mx: "max (k + 2) (length (decimal V)) = Suc (k + nat p)"
    using p by (simp add: len)
  have "fp_round (decimal V) (int (length (decimal V)) - 1) p = Inl AssertionFailed"
    unfolding fp_round_eq [OF pos] mx using d0 d1 over by simp
  with fp_btod_eq [OF assms(1-3), of m p] show ?thesis
    by (auto simp flip: V)
qed

subsection \<open>Formatting\<close>

lemma char_of_int_nat: "char_of (int d) = char_of d"
  by (simp add: char_of_def bit_of_nat_iff_bit)

lemma char_of_digit: "char_of (48 + int d) = char_of (48 + d)"
  using char_of_int_nat [of "48 + d"] by simp

lemma char_of_zero_digit: "char_of (48 :: int) = CHR ''0''"
  by (simp add: char_of_def)

lemma push_digits_Nil: "push_digits k [] i = replicate k CHR ''0''"
  by (induction k arbitrary: i) (simp_all add: digit_def char_of_zero_digit)

lemma sprintf_exp_0: "sprintf_exp 0 = ''e+00''"
  by (simp add: sprintf_exp_def)

lemma fp_format_zero:
  "fp_format [] digitpos precision pow10
     = ''0.'' @ replicate (nat (precision - 1)) CHR ''0'' @ ''e+00''"
  by (simp add: fp_format_def push_digits_Nil sprintf_exp_0 digit_def ndigits_def
      char_of_zero_digit)

lemma fp_round_Nil: "fp_round [] (- 1) p = Inr []"
  by (simp add: fp_round_def digit_def)

lemma fp_btod_zero:
  assumes "cache_ok s" and "- (2 ^ 31) \<le> e" and "e < 2 ^ 31"
  shows "\<exists>s'. cache_ok s' \<and>
           fp_btod 0 e p s = Inr (''0.'' @ replicate (nat (p - 1)) CHR ''0'' @ ''e+00'', s')"
proof -
  have z: "decimal (scaled_value (unat (0 :: 64 word)) e) = []"
    by (simp add: scaled_value_def)
  from fp_btod_eq [OF assms, of 0 p] show ?thesis
    unfolding z by (simp add: fp_round_Nil fp_format_zero)
qed

lemma float_btod_zero:
  assumes "cache_ok s"
  shows "\<exists>s'. cache_ok s' \<and> float_btod 0 s = Inr ('' 0.00000000e+00'', s')"
proof -
  have dec: "float_btod 0 s =
      (case fp_btod 0 (- 149) 9 s of Inl e \<Rightarrow> Inl e | Inr (str, s') \<Rightarrow> Inr ('' '' @ str, s'))"
    by (simp add: float_btod_def ieee_btod_def Let_def)
  from fp_btod_zero [OF assms, of "- 149" 9]
  obtain s' where "cache_ok s'" and "fp_btod 0 (- 149) 9 s = Inr (''0.00000000e+00'', s')"
    by (auto simp: eval_nat_numeral)
  then show ?thesis
    by (auto simp: dec)
qed

text \<open>
  Claim C8. A value with no stored digits is printed with the exponent \<open>+00\<close>, whatever
  the decimal exponent computed before: the formatting step gives \<open>0.\<close>, then
  \<open>precision - 1\<close> zeros, then \<open>e+00\<close>. This is what \<^verbatim>\<open>fp_btod\<close> returns for a zero
  mantissa at every binary exponent, and \<^verbatim>\<open>float_btod(0x00000000)\<close> returns exactly
  \<open>" 0.00000000e+00"\<close>. The maps of powers are any that satisfy their invariant.
\<close>

theorem zero_exponent_forced:
  "(ndigits val = 0 \<longrightarrow>
      fp_format val digitpos precision pow10
        = ''0.'' @ replicate (nat (precision - 1)) CHR ''0'' @ ''e+00'')
   \<and> (cache_ok s \<and> - (2 ^ 31) \<le> e \<and> e < 2 ^ 31 \<longrightarrow>
        (\<exists>s'. fp_btod 0 e precision s
                = Inr (''0.'' @ replicate (nat (precision - 1)) CHR ''0'' @ ''e+00'', s')))
   \<and> (cache_ok s \<longrightarrow> (\<exists>s'. float_btod 0 s = Inr ('' 0.00000000e+00'', s')))"
proof (intro conjI impI)
  assume "ndigits val = 0"
  then have "val = []"
    by (simp add: ndigits_def)
  then show "fp_format val digitpos precision pow10
        = ''0.'' @ replicate (nat (precision - 1)) CHR ''0'' @ ''e+00''"
    by (simp add: fp_format_zero)
next
  assume "cache_ok s \<and> - (2 ^ 31) \<le> e \<and> e < 2 ^ 31"
  then show "\<exists>s'. fp_btod 0 e precision s
                = Inr (''0.'' @ replicate (nat (precision - 1)) CHR ''0'' @ ''e+00'', s')"
    using fp_btod_zero [of s e precision] by blast
next
  assume "cache_ok s"
  then show "\<exists>s'. float_btod 0 s = Inr ('' 0.00000000e+00'', s')"
    using float_btod_zero [of s] by blast
qed

theorem zero_exponent_forced_witness:
  "fp_format [] (- 1) 9 (- 150) = ''0.00000000e+00''
   \<and> (\<exists>s'. fp_btod 0 (- 1074) 17 init_caches = Inr (''0.0000000000000000e+00'', s'))
   \<and> (\<exists>s'. float_btod 0 init_caches = Inr ('' 0.00000000e+00'', s'))"
  using zero_exponent_forced [of "[]" "- 1" 9 "- 150" init_caches "- 1074"]
    zero_exponent_forced [of "[]" "- 1" 17 "- 150" init_caches "- 1074"]
  by (simp add: cache_ok_init ndigits_def eval_nat_numeral)

subsection \<open>NaN and infinity\<close>

text \<open>
  Claim C9. When the biased exponent field of the input is all ones, \<^verbatim>\<open>ieee_btod\<close>
  returns the sign character followed by \<open>NaN\<close> if the mantissa field is not zero and by
  \<open>Inf\<close> if it is zero, and nothing else; the maps of powers are left as they were. In
  particular \<^verbatim>\<open>float_btod(0x7f800001)\<close> is \<open>" NaN"\<close> and
  \<^verbatim>\<open>float_btod(0x7f800000)\<close> is \<open>" Inf"\<close>. The field widths are those for which the
  shifts of the source are defined.
\<close>

theorem ieee_btod_special:
  "(ebits + mbits < 64
      \<and> drop_bit mbits val AND (push_bit ebits 1 - 1) = push_bit ebits 1 - 1
    \<longrightarrow> ieee_btod val ebits mbits digits s =
          Inr ((if val AND push_bit (ebits + mbits) 1 \<noteq> 0 then ''-'' else '' '')
                @ (if val AND (push_bit mbits 1 - 1) \<noteq> 0 then ''NaN'' else ''Inf''), s))
   \<and> float_btod 0x7f800001 s = Inr ('' NaN'', s)
   \<and> float_btod 0x7f800000 s = Inr ('' Inf'', s)"
  by (simp add: float_btod_def ieee_btod_def Let_def)

theorem ieee_btod_special_witness:
  "ieee_btod 0xfff0000000000000 11 52 17 init_caches = Inr (''-Inf'', init_caches)"
  using ieee_btod_special [of 11 52 "0xfff0000000000000" 17 init_caches]
  by simp

subsection \<open>Exactly when the driver stops at the assertion\<close>

lemma top_digits_nines:
  fixes V k p :: nat
  assumes p: "1 \<le> p" and hi: "V < 10 ^ (k + p + 1)" and over: "10 ^ (k + p + 1) \<le> V + 5 * 10 ^ k"
  shows "5 \<le> (V div 10 ^ k) mod 10" and "(V div 10 ^ (k + 1)) mod 10 = 9"
proof -
  from p obtain p' where p': "p = Suc p'"
    by (cases p) simp_all
  define q where "q = V div 10 ^ k"
  define T where "T = (10::nat) ^ p'"
  have pw: "(10::nat) ^ (k + p + 1) = (100 * T) * 10 ^ k"
    by (simp add: T_def p' power_add)
  have "V < (100 * T) * 10 ^ k"
    using hi by (simp only: pw)
  then have qhi: "q < 100 * T"
    unfolding q_def by (simp add: less_mult_imp_div_less)
  have "(100 * T) * 10 ^ k \<le> V + 5 * 10 ^ k"
    using over by (simp only: pw)
  then have "((100 * T) * 10 ^ k) div 10 ^ k \<le> (V + 5 * 10 ^ k) div 10 ^ k"
    by (rule div_le_mono)
  then have qlo: "100 * T \<le> q + 5"
    unfolding q_def by simp
  have T: "1 \<le> T"
    by (simp add: T_def)
  define r where "r = 100 * T - q"
  have r: "1 \<le> r" "r \<le> 5"
    using qhi qlo by (simp_all add: r_def)
  have "q + r = 10 * (10 * T)"
    using qhi by (simp add: r_def)
  with r T have q: "q = 10 * (10 * T - 1) + (10 - r)"
    by linarith
  have "q mod 10 = (10 - r) mod 10"
    by (subst q) (simp only: mod_mult_self4)
  with r show "5 \<le> (V div 10 ^ k) mod 10"
    unfolding q_def [symmetric] by simp
  have "q div 10 = 10 * T - 1 + (10 - r) div 10"
    by (subst q) (simp only: div_mult_self4)
  with r have qd: "q div 10 = 10 * T - 1"
    by simp
  obtain T' where T': "T = Suc T'"
    using T by (cases T) simp_all
  have "10 * T - 1 = 10 * T' + 9"
    by (simp add: T')
  then have "(q div 10) mod 10 = 9"
    by (simp add: qd)
  moreover have "V div 10 ^ (k + 1) = V div (10 ^ k * 10)"
    by (simp add: mult.commute)
  then have "V div 10 ^ (k + 1) = q div 10"
    unfolding q_def by (simp only: div_mult2_eq)
  ultimately show "(V div 10 ^ (k + 1)) mod 10 = 9"
    by simp
qed

lemma decimal_less_power: "V < 10 ^ length (decimal V)"
  using bigint_value_less [OF digits_ok_decimal, of V] by simp

lemma fp_round_no_rounding:
  "digitpos - precision < 0 \<Longrightarrow> fp_round val digitpos precision = Inr val"
  by (simp add: fp_round_def)

lemma fp_round_fails_iff:
  assumes p: "1 \<le> p"
  shows "fp_round (decimal V) (int (length (decimal V)) - 1) p = Inl AssertionFailed \<longleftrightarrow>
           nat p < length (decimal V)
           \<and> 10 ^ length (decimal V) \<le> V + 5 * 10 ^ (length (decimal V) - 1 - nat p)"
proof (cases "nat p < length (decimal V)")
  case False
  moreover have "int (nat p) = p"
    using p by simp
  ultimately have "int (length (decimal V)) - 1 - p < 0"
    by linarith
  then show ?thesis
    using False by (simp add: fp_round_no_rounding)
next
  case True
  let ?d = "length (decimal V)"
  define k where "k = ?d - 1 - nat p"
  have d: "?d = k + nat p + 1"
    using True by (simp add: k_def)
  have pos: "int ?d - 1 - p = int k"
    using p by (simp add: d)
  have mx: "max (k + 2) ?d = ?d"
    using p by (simp add: d)
  have hi: "V < 10 ^ (k + nat p + 1)"
    using decimal_less_power [of V] by (simp only: d [symmetric])
  show ?thesis
  proof
    assume "fp_round (decimal V) (int ?d - 1) p = Inl AssertionFailed"
    then have "\<not> V + (if odd ((V div 10 ^ (k + 1)) mod 10) then 5 * 10 ^ k else 5 * 10 ^ k - 1)
                 < 10 ^ ?d"
      unfolding fp_round_eq [OF pos] mx by (simp add: Let_def split: if_splits)
    then have "10 ^ ?d \<le> V + 5 * 10 ^ k"
      by (simp split: if_splits)
    with True show "nat p < ?d \<and> 10 ^ ?d \<le> V + 5 * 10 ^ (?d - 1 - nat p)"
      by (simp add: k_def)
  next
    assume "nat p < ?d \<and> 10 ^ ?d \<le> V + 5 * 10 ^ (?d - 1 - nat p)"
    then have over: "10 ^ (k + nat p + 1) \<le> V + 5 * 10 ^ k"
      unfolding k_def [symmetric] by (simp only: d [symmetric])
    have "1 \<le> nat p"
      using p by simp
    from top_digits_nines [OF this hi over]
    have d0: "5 \<le> (V div 10 ^ k) mod 10" and d1: "odd ((V div 10 ^ (k + 1)) mod 10)"
      by simp_all
    have "\<not> V + 5 * 10 ^ k < 10 ^ ?d"
      using over by (simp only: d [symmetric])
    then show "fp_round (decimal V) (int ?d - 1) p = Inl AssertionFailed"
      unfolding fp_round_eq [OF pos] mx using d0 d1 by simp
  qed
qed

text \<open>
  For a precision of at least 1, and maps of powers that satisfy their invariant, the
  driver stops at the assertion exactly when the scaled value has more than \<open>p\<close> digits
  and adding half a unit of the last retained digit reaches the next power of ten, that
  is, when the correctly rounded significand is \<open>1.00...0\<close> with a new leading digit.
\<close>

lemma fp_btod_fails_iff:
  assumes "cache_ok s" and "- (2 ^ 31) \<le> e" and "e < 2 ^ 31" and "1 \<le> p"
  shows "fp_btod m e p s = Inl AssertionFailed \<longleftrightarrow>
           nat p < length (decimal (scaled_value (unat m) e))
           \<and> 10 ^ length (decimal (scaled_value (unat m) e))
               \<le> scaled_value (unat m) e
                    + 5 * 10 ^ (length (decimal (scaled_value (unat m) e)) - 1 - nat p)"
proof -
  let ?V = "scaled_value (unat m) e"
  let ?r = "fp_round (decimal ?V) (int (length (decimal ?V)) - 1) p"
  from fp_btod_eq [OF assms(1-3), of m p]
  obtain s' where eq: "fp_btod m e p s =
      (case ?r of Inl err \<Rightarrow> Inl err
       | Inr val' \<Rightarrow>
           Inr (fp_format val' (int (length (decimal ?V)) - 1) p
                  ((if e < 0 then e else 0) + (int (length (decimal ?V)) - 1)), s'))"
    by blast
  have "fp_btod m e p s = Inl AssertionFailed \<longleftrightarrow> ?r = Inl AssertionFailed"
  proof (cases ?r)
    case (Inl err)
    then show ?thesis
      by (cases err) (simp add: eq)
  next
    case (Inr val')
    then show ?thesis
      by (simp add: eq)
  qed
  then show ?thesis
    by (simp only: fp_round_fails_iff [OF assms(4)])
qed

subsection \<open>What the driver prints when it does not stop\<close>

lemma round_step:
  fixes V h :: nat
  assumes h: "0 < h"
  shows "(if h \<le> V mod (2 * h)
          then (V + (if odd (V div (2 * h)) then h else h - 1)) div (2 * h)
          else V div (2 * h))
         = round_half_even V (2 * h)"
proof -
  define q where "q = V div (2 * h)"
  define r where "r = V mod (2 * h)"
  have V: "V = q * (2 * h) + r"
    unfolding q_def r_def by (rule div_mult_mod_eq [symmetric])
  have r: "r < 2 * h"
    using h by (simp add: r_def)
  have dv: "(V + x) div (2 * h) = q + (r + x) div (2 * h)" for x
  proof -
    have "V + x = (r + x) + q * (2 * h)"
      by (simp add: V)
    then show ?thesis
      using h by (simp only: div_mult_self1)
  qed
  have one: "(r + x) div (2 * h) = 1" if "2 * h \<le> r + x" "r + x < 2 * (2 * h)" for x
    using that h by (simp add: div_nat_eqI)
  have zero: "(r + x) div (2 * h) = 0" if "r + x < 2 * h" for x
    using that by simp
  show ?thesis
  proof (cases "h \<le> r")
    case False
    then show ?thesis
      unfolding round_half_even_def q_def [symmetric] r_def [symmetric] by simp
  next
    case True
    show ?thesis
    proof (cases "odd q")
      case odd: True
      have "(r + h) div (2 * h) = 1"
        using True r by (intro one) simp_all
      with True odd show ?thesis
        unfolding round_half_even_def q_def [symmetric] r_def [symmetric]
        by (auto simp: dv)
    next
      case even: False
      show ?thesis
      proof (cases "h < r")
        case False
        with True h have "(r + (h - 1)) div (2 * h) = 0"
          by (intro zero) simp
        moreover have "\<not> 2 * h < 2 * r"
          using False by simp
        ultimately show ?thesis
          unfolding round_half_even_def q_def [symmetric] r_def [symmetric]
          using True even dv [of "h - 1"] by simp
      next
        case gt: True
        then have "(r + (h - 1)) div (2 * h) = 1"
          using r h by (intro one) simp_all
        moreover have "2 * h < 2 * r"
          using gt by simp
        ultimately show ?thesis
          unfolding round_half_even_def q_def [symmetric] r_def [symmetric]
          using True even by (simp add: dv)
      qed
    qed
  qed
qed

lemma digit_ge_5_iff:
  fixes V k :: nat
  shows "5 \<le> (V div 10 ^ k) mod 10 \<longleftrightarrow> 5 * 10 ^ k \<le> V mod (2 * (5 * 10 ^ k))"
proof -
  define t where "t = (V div 10 ^ k) mod 10"
  define w where "w = V mod 10 ^ k"
  have w: "w < 10 ^ k"
    by (simp add: w_def)
  have "V mod (10 ^ k * 10) = 10 ^ k * t + w"
    unfolding t_def w_def by (rule mod_mult2_eq)
  then have m: "V mod (2 * (5 * 10 ^ k)) = t * 10 ^ k + w"
    by (simp add: mult.commute)
  show ?thesis
    unfolding t_def [symmetric] m
  proof
    assume "5 \<le> t"
    then have "5 * 10 ^ k \<le> t * 10 ^ k"
      by (rule mult_le_mono1)
    then show "5 * 10 ^ k \<le> t * 10 ^ k + w"
      by (rule trans_le_add1)
  next
    assume a: "5 * 10 ^ k \<le> t * 10 ^ k + w"
    show "5 \<le> t"
    proof (rule ccontr)
      assume "\<not> 5 \<le> t"
      then have "t \<le> 4" by simp
      then have "t * 10 ^ k \<le> 4 * 10 ^ k"
        by (rule mult_le_mono1)
      with w a show False
        by simp
    qed
  qed
qed

lemma odd_digit_iff:
  fixes V k :: nat
  shows "odd ((V div 10 ^ (k + 1)) mod 10) \<longleftrightarrow> odd (V div (2 * (5 * 10 ^ k)))"
proof -
  have "(10::nat) ^ (k + 1) = 2 * (5 * 10 ^ k)"
    by simp
  moreover have "odd (x mod 10) \<longleftrightarrow> odd x" for x :: nat
    by presburger
  ultimately show ?thesis
    by (simp only:)
qed

lemma fp_round_value:
  assumes p: "1 \<le> p" and lt: "nat p < length (decimal V)"
    and nofail: "\<not> 10 ^ length (decimal V) \<le> V + 5 * 10 ^ (length (decimal V) - 1 - nat p)"
  shows "\<exists>V'. fp_round (decimal V) (int (length (decimal V)) - 1) p = Inr (decimal V')
           \<and> V' div 10 ^ (length (decimal V) - nat p)
               = round_half_even V (10 ^ (length (decimal V) - nat p))
           \<and> V \<le> V' \<and> V' < 10 ^ length (decimal V)"
proof -
  let ?d = "length (decimal V)"
  define k where "k = ?d - 1 - nat p"
  define h :: nat where "h = 5 * 10 ^ k"
  have d: "?d = k + nat p + 1"
    using lt by (simp add: k_def)
  have pos: "int ?d - 1 - p = int k"
    using p by (simp add: d)
  have mx: "max (k + 2) ?d = ?d"
    using p by (simp add: d)
  have u: "(10::nat) ^ (?d - nat p) = 2 * h"
    by (simp add: d h_def)
  have h0: "0 < h"
    by (simp add: h_def)
  have room: "V + h < 10 ^ ?d"
    using nofail by (simp add: k_def h_def)
  define V' where "V' = (if h \<le> V mod (2 * h)
      then V + (if odd (V div (2 * h)) then h else h - 1) else V)"
  have le: "V \<le> V'" and less: "V' < 10 ^ ?d"
    using room decimal_less_power [of V] by (auto simp: V'_def)
  have "fp_round (decimal V) (int ?d - 1) p = Inr (decimal V')"
    unfolding fp_round_eq [OF pos] mx digit_ge_5_iff odd_digit_iff h_def [symmetric]
    using room by (auto simp: V'_def Let_def)
  moreover have "V' div (2 * h) =
      (if h \<le> V mod (2 * h)
       then (V + (if odd (V div (2 * h)) then h else h - 1)) div (2 * h)
       else V div (2 * h))"
    by (simp add: V'_def)
  then have "V' div (2 * h) = round_half_even V (2 * h)"
    by (simp only: round_step [OF h0])
  ultimately show ?thesis
    using le less by (auto simp: u)
qed

lemma push_digits_snoc:
  "push_digits (Suc n) val i = push_digits n val i @ [char_of (48 + digit val (i - int n))]"
proof (induction n arbitrary: i)
  case 0
  show ?case by simp
next
  case (Suc n)
  have "push_digits (Suc (Suc n)) val i
          = char_of (48 + digit val i) # push_digits (Suc n) val (i - 1)"
    by simp
  also have "\<dots> = char_of (48 + digit val i)
          # (push_digits n val (i - 1) @ [char_of (48 + digit val (i - 1 - int n))])"
    by (simp only: Suc.IH)
  finally show ?case
    by (simp add: algebra_simps)
qed

lemma push_digits_map:
  "push_digits n val (i - 1) = map (\<lambda>j. char_of (48 + digit val (i - int j))) [1..<Suc n]"
proof (induction n)
  case 0
  show ?case by simp
next
  case (Suc n)
  have "push_digits (Suc n) val (i - 1)
          = push_digits n val (i - 1) @ [char_of (48 + digit val (i - 1 - int n))]"
    by (rule push_digits_snoc)
  also have "\<dots> = map (\<lambda>j. char_of (48 + digit val (i - int j))) [1..<Suc n]
          @ [char_of (48 + digit val (i - int (Suc n)))]"
    by (simp add: Suc.IH algebra_simps)
  finally show ?case
    by simp
qed

lemma fp_format_decimal:
  assumes p: "1 \<le> p"
    and dg: "\<And>j. j < nat p \<Longrightarrow>
               digit (decimal V') (dp - int j) = int ((Q div 10 ^ (nat p - 1 - j)) mod 10)"
  shows "fp_format (decimal V') dp p pow10
           = sci_digits Q (nat p) @ sprintf_exp (if V' = 0 then 0 else pow10)"
proof -
  have n: "Suc (nat (p - 1)) = nat p"
    using p by simp
  have first: "char_of (48 + digit (decimal V') dp) = char_of (48 + (Q div 10 ^ (nat p - 1)) mod 10)"
    using dg [of 0] p by (simp add: char_of_digit)
  have rest: "push_digits (nat (p - 1)) (decimal V') (dp - 1)
      = map (\<lambda>j. char_of (48 + (Q div 10 ^ (nat p - 1 - j)) mod 10)) [1..<nat p]"
    unfolding push_digits_map n
    by (rule map_cong [OF refl]) (simp add: dg char_of_digit)
  show ?thesis
    by (simp add: fp_format_def sci_digits_def first rest ndigits_def)
qed

lemma digit_of_rounded:
  assumes j: "j < p" and pd: "p < d"
  shows "digit (decimal V') (int d - 1 - int j)
           = int (((V' div 10 ^ (d - p)) div 10 ^ (p - 1 - j)) mod 10)"
proof -
  have i: "int d - 1 - int j = int (d - 1 - j)"
    using j pd by simp
  have "d - 1 - j = (d - p) + (p - 1 - j)"
    using j pd by simp
  then have "(10::nat) ^ (d - 1 - j) = 10 ^ (d - p) * 10 ^ (p - 1 - j)"
    by (simp only: power_add)
  then have "V' div 10 ^ (d - 1 - j) = (V' div 10 ^ (d - p)) div 10 ^ (p - 1 - j)"
    by (simp only: div_mult2_eq)
  then show ?thesis
    unfolding i using digit_decimal [of "int (d - 1 - j)" V'] by simp
qed

lemma digit_of_exact:
  assumes j: "j < p" and dp: "d \<le> p"
  shows "digit (decimal V) (int d - 1 - int j)
           = int (((V * 10 ^ (p - d)) div 10 ^ (p - 1 - j)) mod 10)"
proof (cases "j < d")
  case True
  have i: "int d - 1 - int j = int (d - 1 - j)"
    using True by simp
  have "p - 1 - j = (p - d) + (d - 1 - j)"
    using True dp by simp
  then have "(10::nat) ^ (p - 1 - j) = 10 ^ (p - d) * 10 ^ (d - 1 - j)"
    by (simp only: power_add)
  then have "(V * 10 ^ (p - d)) div 10 ^ (p - 1 - j)
               = (10 ^ (p - d) * V) div (10 ^ (p - d) * 10 ^ (d - 1 - j))"
    by (simp only: mult.commute)
  also have "\<dots> = V div 10 ^ (d - 1 - j)"
    by (rule div_mult_mult1) simp
  finally show ?thesis
    unfolding i using digit_decimal [of "int (d - 1 - j)" V] by simp
next
  case False
  then have neg: "int d - 1 - int j < 0"
    by simp
  have "p - d = (p - 1 - j) + Suc (j - d)"
    using False j by simp
  then have "(10::nat) ^ (p - d) = 10 ^ (p - 1 - j) * (10 * 10 ^ (j - d))"
    by (simp only: power_add power_Suc)
  then have "V * 10 ^ (p - d) = (V * 10 ^ (j - d) * 10) * 10 ^ (p - 1 - j)"
    by (simp only: mult_ac)
  then have "(V * 10 ^ (p - d)) div 10 ^ (p - 1 - j) = V * 10 ^ (j - d) * 10"
    by (simp only: div_mult_self_is_m zero_less_power zero_less_numeral)
  then have "((V * 10 ^ (p - d)) div 10 ^ (p - 1 - j)) mod 10 = 0"
    by simp
  with neg show ?thesis
    by (simp add: digit_def)
qed

text \<open>
  In every other case the driver returns the value rounded to \<open>p\<close> significant digits,
  to nearest with ties to even, and the decimal exponent of its leading digit: the digits
  of \<^const>\<open>significand\<close>, and \<open>length - 1\<close> plus the binary exponent when that is
  negative (the scaled value is then \<open>m * 2^e * 10^(-e)\<close>); a zero value is printed with
  exponent 0.
\<close>

lemma fp_btod_correct:
  assumes "cache_ok s" and "- (2 ^ 31) \<le> e" and "e < 2 ^ 31" and p: "1 \<le> p"
    and V: "V = scaled_value (unat m) e"
    and nofail: "\<not> (nat p < length (decimal V)
                  \<and> 10 ^ length (decimal V) \<le> V + 5 * 10 ^ (length (decimal V) - 1 - nat p))"
  shows "\<exists>s'. cache_ok s' \<and>
           fp_btod m e p s =
             Inr (sci_digits (significand V (nat p)) (nat p)
                    @ sprintf_exp (if V = 0 then 0
                         else (if e < 0 then e else 0) + (int (length (decimal V)) - 1)), s')"
proof -
  let ?d = "length (decimal V)"
  let ?dp = "int ?d - 1"
  let ?p10 = "(if e < 0 then e else 0) + ?dp"
  from fp_btod_eq [OF assms(1-3), of m p]
  obtain s' where ok: "cache_ok s'" and eq: "fp_btod m e p s =
      (case fp_round (decimal V) ?dp p of Inl err \<Rightarrow> Inl err
       | Inr val' \<Rightarrow> Inr (fp_format val' ?dp p ?p10, s'))"
    unfolding V by blast
  have "\<exists>V'. fp_round (decimal V) ?dp p = Inr (decimal V') \<and> (V' = 0 \<longleftrightarrow> V = 0)
          \<and> (\<forall>j < nat p. digit (decimal V') (?dp - int j)
                 = int ((significand V (nat p) div 10 ^ (nat p - 1 - j)) mod 10))"
  proof (cases "nat p < ?d")
    case True
    with nofail have "\<not> 10 ^ ?d \<le> V + 5 * 10 ^ (?d - 1 - nat p)"
      by simp
    from fp_round_value [OF p True this]
    obtain V' where r: "fp_round (decimal V) ?dp p = Inr (decimal V')"
      and q: "V' div 10 ^ (?d - nat p) = round_half_even V (10 ^ (?d - nat p))"
      and le: "V \<le> V'"
      by blast
    have sg: "significand V (nat p) = V' div 10 ^ (?d - nat p)"
      using True by (simp add: significand_def q)
    have "V \<noteq> 0"
    proof
      assume "V = 0"
      with True show False by simp
    qed
    with le have z: "V' = 0 \<longleftrightarrow> V = 0"
      by simp
    have "\<forall>j < nat p. digit (decimal V') (?dp - int j)
            = int ((significand V (nat p) div 10 ^ (nat p - 1 - j)) mod 10)"
      unfolding sg using digit_of_rounded [OF _ True, of _ V'] by blast
    with r z show ?thesis
      by blast
  next
    case False
    moreover have "int (nat p) = p"
      using p by simp
    ultimately have "?dp - p < 0"
      by linarith
    then have r: "fp_round (decimal V) ?dp p = Inr (decimal V)"
      by (rule fp_round_no_rounding)
    have sg: "significand V (nat p) = V * 10 ^ (nat p - ?d)"
      using False by (simp add: significand_def)
    have le: "?d \<le> nat p"
      using False by simp
    have "\<forall>j < nat p. digit (decimal V) (?dp - int j)
            = int ((significand V (nat p) div 10 ^ (nat p - 1 - j)) mod 10)"
      unfolding sg using digit_of_exact [OF _ le, of _ V] by blast
    with r show ?thesis
      by blast
  qed
  then obtain V' where r: "fp_round (decimal V) ?dp p = Inr (decimal V')"
    and z: "V' = 0 \<longleftrightarrow> V = 0"
    and dg: "\<And>j. j < nat p \<Longrightarrow> digit (decimal V') (?dp - int j)
                 = int ((significand V (nat p) div 10 ^ (nat p - 1 - j)) mod 10)"
    by blast
  have "fp_format (decimal V') ?dp p ?p10
          = sci_digits (significand V (nat p)) (nat p)
              @ sprintf_exp (if V' = 0 then 0 else ?p10)"
    using p dg by (rule fp_format_decimal)
  with ok show ?thesis
    by (simp add: eq r z)
qed

subsection \<open>A test of the source, through the general result\<close>

text \<open>
  The source's own test expects \<^verbatim>\<open>float_btod(0x7f7fffff)\<close>, the largest finite float,
  to be \<open>" 3.40282347e+38"\<close>. The value is \<open>16777215 * 2^104\<close>, of 39 digits; its
  rounding does not reach the next power of ten, and the result of the driver is the one
  that \<open>fp_btod_correct\<close> gives.
\<close>

lemma char_of_digits_int:
  "char_of (48 :: int) = CHR ''0''" "char_of (49 :: int) = CHR ''1''"
  "char_of (50 :: int) = CHR ''2''" "char_of (51 :: int) = CHR ''3''"
  "char_of (52 :: int) = CHR ''4''" "char_of (53 :: int) = CHR ''5''"
  "char_of (54 :: int) = CHR ''6''" "char_of (55 :: int) = CHR ''7''"
  "char_of (56 :: int) = CHR ''8''" "char_of (57 :: int) = CHR ''9''"
  by (simp_all add: char_of_def)

lemma char_of_digits:
  "char_of (48 :: nat) = CHR ''0''" "char_of (49 :: nat) = CHR ''1''"
  "char_of (50 :: nat) = CHR ''2''" "char_of (51 :: nat) = CHR ''3''"
  "char_of (52 :: nat) = CHR ''4''" "char_of (53 :: nat) = CHR ''5''"
  "char_of (54 :: nat) = CHR ''6''" "char_of (55 :: nat) = CHR ''7''"
  "char_of (56 :: nat) = CHR ''8''" "char_of (57 :: nat) = CHR ''9''"
  using char_of_int_nat [of 48] char_of_int_nat [of 49] char_of_int_nat [of 50]
    char_of_int_nat [of 51] char_of_int_nat [of 52] char_of_int_nat [of 53]
    char_of_int_nat [of 54] char_of_int_nat [of 55] char_of_int_nat [of 56]
    char_of_int_nat [of 57]
  by (simp_all add: char_of_digits_int)

lemma sprintf_exp_38: "sprintf_exp 38 = ''e+38''"
  by (simp add: sprintf_exp_def sprintf_llu.simps [of 38] sprintf_llu.simps [of 3]
      sprintf_llu.simps [of 0] char_of_digits)

lemma sci_digits_largest_float: "sci_digits 340282347 9 = ''3.40282347''"
proof -
  have up: "[1..<9] = [1, 2, 3, 4, 5, 6, 7, 8]"
    by (simp add: upt_rec)
  show ?thesis
    unfolding sci_digits_def up by (simp add: char_of_digits)
qed

lemma fp_btod_largest_float:
  "\<exists>s'. fp_btod 16777215 104 9 init_caches = Inr (''3.40282347e+38'', s')"
proof -
  let ?V = "16777215 * 2 ^ 104 :: nat"
  have V: "?V = scaled_value (unat (16777215 :: 64 word)) 104"
    by (simp add: scaled_value_def)
  have len: "length (decimal ?V) = Suc 38"
    by (rule length_decimal_eq) simp_all
  have nf: "\<not> (nat 9 < length (decimal ?V)
      \<and> 10 ^ length (decimal ?V) \<le> ?V + 5 * 10 ^ (length (decimal ?V) - 1 - nat 9))"
    unfolding len by simp
  have sg: "significand ?V (nat 9) = 340282347"
    unfolding significand_def len by (simp add: round_half_even_def)
  have nz: "?V \<noteq> 0"
    by simp
  have ex: "(if (104::int) < 0 then 104 else 0) + (int (Suc 38) - 1) = (38::int)"
    by simp
  from fp_btod_correct [OF cache_ok_init _ _ _ V nf]
  obtain s' where "fp_btod 16777215 104 9 init_caches
      = Inr (sci_digits (significand ?V (nat 9)) (nat 9)
              @ sprintf_exp (if ?V = 0 then 0 else (if (104::int) < 0 then 104 else 0)
                  + (int (length (decimal ?V)) - 1)), s')"
    by auto
  then have "fp_btod 16777215 104 9 init_caches = Inr (sci_digits 340282347 9 @ sprintf_exp 38, s')"
    unfolding sg len ex if_not_P [OF nz] by simp
  then show ?thesis
    by (simp add: sci_digits_largest_float sprintf_exp_38)
qed

lemma float_btod_largest_float:
  "\<exists>s'. float_btod 0x7f7fffff init_caches = Inr ('' 3.40282347e+38'', s')"
proof -
  from fp_btod_largest_float
  obtain s' where "fp_btod 16777215 104 9 init_caches = Inr (''3.40282347e+38'', s')"
    by blast
  then show ?thesis
    by (simp add: float_btod_def ieee_btod_def Let_def)
qed

subsection \<open>Inputs whose rounding carries into a new leading digit\<close>

text \<open>
  When the retained digits are all nines and the first dropped digit is at least 5, the
  rounding addition carries out of the top digit. \<^verbatim>\<open>operator+=\<close> has extended the
  value only to the length of the increment plus one, which is not longer than the value
  itself, so \<^verbatim>\<open>normalise\<close> ends with a carry and its assertion fails. The lemmas
  below evaluate the driver on decoded inputs of that kind.
\<close>

text \<open>
  Claim C6 says that \<^verbatim>\<open>operator+=\<close> leaves the exact sum in its left operand for
  every pair of operands that satisfy the digit invariant, the final-carry check never
  failing on such operands. It fails at the operands 95 and 5, and at the operands that
  \<^verbatim>\<open>float_btod(0x19416d9a)\<close> passes: the 77-digit value \<open>12676506 * 5^100\<close> and the
  increment \<^verbatim>\<open>Bigint(5, 67, 0)\<close>. All four satisfy the invariant. \<^verbatim>\<open>operator+=\<close>
  extends the left operand to \<open>len(other) + 1\<close> slots, which it already has, the sum
  needs one digit more than the left operand, and \<^verbatim>\<open>normalise\<close> ends with a carry
  left: the assertion fails.
\<close>

theorem add_assign_carry_out:
  "add_assign [5, 9] [5] = Inl AssertionFailed
   \<and> add_assign (decimal (12676506 * 5 ^ 100)) (Bigint 5 67 0) = Inl AssertionFailed"
proof
  show "add_assign [5, 9] [5] = Inl AssertionFailed"
    by code_simp
  let ?V = "12676506 * 5 ^ 100 :: nat"
  have len: "length (decimal ?V) = Suc 76"
    by (rule length_decimal_eq) simp_all
  have ok: "digits_ok (replicate 67 0 @ [5])"
    by (simp add: digits_ok_def)
  have v: "bigint_value (replicate 67 0 @ [5]) = 5 * 10 ^ 67"
    by (simp add: bigint_value_append)
  show "add_assign (decimal ?V) (Bigint 5 67 0) = Inl AssertionFailed"
    unfolding Bigint_round_up add_assign_eq [OF digits_ok_decimal ok] v len
    by simp
qed

lemma fp_btod_1e_minus_23:
  "fp_btod 12676506 (- 100) 9 init_caches = Inl AssertionFailed"
  by (rule fp_btod_fails [OF cache_ok_init, where k = 67 and V = "12676506 * 5 ^ 100"])
     (simp_all add: scaled_value_def)

lemma fp_btod_1e_minus_70:
  "fp_btod 6216540455122333 (- 285) 17 init_caches = Inl AssertionFailed"
  by (rule fp_btod_fails [OF cache_ok_init, where k = 197 and V = "6216540455122333 * 5 ^ 285"])
     (simp_all add: scaled_value_def)

lemma fp_btod_1e_98:
  "fp_btod 6588873714519077 273 17 init_caches = Inl AssertionFailed"
  by (rule fp_btod_fails [OF cache_ok_init, where k = 80 and V = "6588873714519077 * 2 ^ 273"])
     (simp_all add: scaled_value_def)

lemma double_btod_decodes_1e_minus_14:
  "double_btod 0x3d06849b86a12b9b s =
     (case fp_btod 6338253001141147 (- 99) 17 s of
        Inl e \<Rightarrow> Inl e
      | Inr (str, s') \<Rightarrow> Inr ('' '' @ str, s'))"
  by (simp add: double_btod_def ieee_btod_def Let_def)

text \<open>
  Claim C1 says that for every finite non-zero decoded input the digits that
  \<^verbatim>\<open>fp_btod\<close> emits are the significand rounded to \<open>p\<close> digits, to nearest with ties
  to even, and the exponent the decimal exponent of the rounded value. It fails at the
  decoded input of the double nearest to \<open>1e-14\<close>: mantissa
  6338253001141147, binary exponent -99, precision 17. The scaled value
  \<open>6338253001141147 * 5^99\<close> has 85 digits and begins with seventeen nines followed by
  an 8, so the correctly rounded significand is \<open>1.0000000000000000\<close> with decimal
  exponent -14. \<^verbatim>\<open>fp_btod\<close> emits no digits: the rounding addition fails the
  assertion of \<^verbatim>\<open>normalise\<close>.
\<close>

theorem fp_btod_rounding_carry_lost:
  "fp_btod 6338253001141147 (- 99) 17 init_caches = Inl AssertionFailed"
  by (rule fp_btod_fails [OF cache_ok_init, where k = 67 and V = "6338253001141147 * 5 ^ 99"])
     (simp_all add: scaled_value_def)

text \<open>
  Claim C2 says that the string of \<^verbatim>\<open>float_btod\<close> or \<^verbatim>\<open>double_btod\<close>, parsed back
  to the nearest value of the format, gives the original bit pattern, for every finite
  non-zero pattern. It fails at the bit pattern \<open>0x316615e91d8f359d\<close>, the double
  nearest to \<open>1e-70\<close>, a finite non-zero value: \<^verbatim>\<open>double_btod\<close> returns no string
  that could be parsed back, it stops at the assertion.
\<close>

theorem double_btod_no_string:
  "double_btod 0x316615e91d8f359d init_caches = Inl AssertionFailed"
  by (simp add: double_btod_def ieee_btod_def Let_def fp_btod_1e_minus_70)

text \<open>
  Claim C3 says that \<^verbatim>\<open>double_btod\<close> and \<^verbatim>\<open>float_btod\<close> produce a string for
  every bit pattern, the final-carry assertion of \<^verbatim>\<open>normalise\<close> never failing. It
  fails at the 64-bit pattern \<open>0x5447688bb5394c25\<close> (the double nearest to \<open>1e98\<close>)
  and at the 32-bit pattern \<open>0x99416d9a\<close> (the float nearest to \<open>-1e-23\<close>): from
  both entry points the assertion is reached with a carry left.
\<close>

theorem final_carry_assertion_reached:
  "double_btod 0x5447688bb5394c25 init_caches = Inl AssertionFailed
   \<and> float_btod 0x99416d9a init_caches = Inl AssertionFailed"
  by (simp add: double_btod_def float_btod_def ieee_btod_def Let_def
      fp_btod_1e_98 fp_btod_1e_minus_23)

text \<open>
  Claim C4 says that \<^verbatim>\<open>float_btod\<close> returns, for every 32-bit pattern, a string of
  the output grammar: sign, digit, point, eight digits, \<open>e\<close>, sign, at least two
  exponent digits, or sign and \<open>NaN\<close> or \<open>Inf\<close>. It fails at the 32-bit pattern
  \<open>0x19416d9a\<close>, the float nearest to \<open>1e-23\<close>: \<^verbatim>\<open>float_btod\<close> returns no string at
  all; the expected output is \<open>" 1.00000000e-23"\<close>.
\<close>

theorem float_btod_no_output:
  "float_btod 0x19416d9a init_caches = Inl AssertionFailed"
  by (simp add: float_btod_def ieee_btod_def Let_def fp_btod_1e_minus_23)

end
